theory Spec2Isabelle
  imports Main "HOL-Library.Multiset"
begin

section \<open>Data model (cardgame.h)\<close>

text \<open>
  The two enumerations of the header. C numbers the constants from zero in the order of
  declaration, so \<open>Club = 0\<close>, ..., \<open>Diamond = 3\<close> and \<open>Two = 0\<close>, ..., \<open>Ace = 12\<close>;
  \<open>suit_val\<close> and \<open>rank_val\<close> give that integer value, \<open>suit_of_val\<close> and
  \<open>rank_of_val\<close> are the conversions from the loop counters of \<open>initializeDeck\<close>.
\<close>

datatype Suit = Club | Spade | Heart | Diamond

datatype Rank = Two | Three | Four | Five | Six | Seven | Eight | Nine | Ten
  | Jack | Queen | King | Ace

fun suit_val :: "Suit \<Rightarrow> nat" where
  "suit_val Club = 0"
| "suit_val Spade = 1"
| "suit_val Heart = 2"
| "suit_val Diamond = 3"

fun rank_val :: "Rank \<Rightarrow> nat" where
  "rank_val Two = 0"
| "rank_val Three = 1"
| "rank_val Four = 2"
| "rank_val Five = 3"
| "rank_val Six = 4"
| "rank_val Seven = 5"
| "rank_val Eight = 6"
| "rank_val Nine = 7"
| "rank_val Ten = 8"
| "rank_val Jack = 9"
| "rank_val Queen = 10"
| "rank_val King = 11"
| "rank_val Ace = 12"

definition suit_of_val :: "nat \<Rightarrow> Suit" where
  "suit_of_val n = (if n = 0 then Club else if n = 1 then Spade
                    else if n = 2 then Heart else Diamond)"

definition rank_of_val :: "nat \<Rightarrow> Rank" where
  "rank_of_val n = (if n = 0 then Two else if n = 1 then Three else if n = 2 then Four
     else if n = 3 then Five else if n = 4 then Six else if n = 5 then Seven
     else if n = 6 then Eight else if n = 7 then Nine else if n = 8 then Ten
     else if n = 9 then Jack else if n = 10 then Queen else if n = 11 then King else Ace)"

record PlayingCard =
  suit :: Suit
  rank :: Rank

text \<open>
  \<open>DeckOfCards\<close> is a heap array \<open>cards\<close> with its length \<open>size\<close> and the cached
  \<open>topCard\<close>. No function of the program reads a cell at or beyond \<open>size\<close> of a non-empty
  deck, and every function that changes \<open>size\<close> reallocates to it or overwrites the cells
  it exposes, so the array and its size are one list: \<open>size\<close> is \<open>length (cards d)\<close>.
  Allocation is taken to succeed.
\<close>

record DeckOfCards =
  cards :: "PlayingCard list"
  topCard :: PlayingCard

datatype PlayerTurn = PlayerOne | PlayerTwo

text \<open>The initialiser \<open>{ NULL, 0, {0} }\<close>: no cards, top card with both fields zero.\<close>

definition emptyDeck :: DeckOfCards where
  "emptyDeck = \<lparr>cards = [], topCard = \<lparr>suit = Club, rank = Two\<rparr>\<rparr>"

text \<open>
  The one failure of the program: \<open>drawCard\<close> on a deck of size zero reads
  \<open>cards[-1]\<close>.
\<close>

datatype error = EmptyDeckRead

section \<open>Deck container (cardgame.c)\<close>

definition addCardToDeck :: "DeckOfCards \<Rightarrow> PlayingCard \<Rightarrow> DeckOfCards" where
  "addCardToDeck deck crd = deck\<lparr>cards := cards deck @ [crd]\<rparr>"

definition drawCard :: "DeckOfCards \<Rightarrow> error + (PlayingCard \<times> DeckOfCards)" where
  "drawCard deck =
     (if length (cards deck) = 0 then Inl EmptyDeckRead
      else let topc = cards deck ! (length (cards deck) - 1)
           in Inr (topc, deck\<lparr>cards := take (length (cards deck) - 1) (cards deck)\<rparr>))"

text \<open>
  \<open>initializeDeck\<close>: three nested counting loops, the innermost adding one card. A
  non-positive \<open>numPacks\<close> runs the outer loop zero times.
\<close>

definition initializeDeck :: "int \<Rightarrow> DeckOfCards" where
  "initializeDeck numPacks =
     fold (\<lambda>pack deck.
       fold (\<lambda>s deck.
         fold (\<lambda>r deck. addCardToDeck deck \<lparr>suit = suit_of_val s, rank = rank_of_val r\<rparr>)
           [rank_val Two ..< rank_val Ace + 1] deck)
         [suit_val Club ..< suit_val Diamond + 1] deck)
       [0 ..< nat numPacks] emptyDeck"

text \<open>
  \<open>rand()\<close> is a source of non-negative integers: the source is the sequence of its
  future results, and a call takes the first and leaves the rest.
\<close>

type_synonym rand_src = "nat \<Rightarrow> nat"

definition rand :: "rand_src \<Rightarrow> nat \<times> rand_src" where
  "rand g = (g 0, \<lambda>n. g (Suc n))"

text \<open>
  \<open>shuffleDeck\<close>: \<open>i\<close> runs from \<open>size - 1\<close> down to 1. For an empty deck C starts at
  \<open>-1\<close> and the truncated subtraction here at 0; neither runs the body.
\<close>

fun shuffle_loop :: "nat \<Rightarrow> PlayingCard list \<Rightarrow> rand_src \<Rightarrow> PlayingCard list \<times> rand_src" where
  "shuffle_loop 0 cs g = (cs, g)"
| "shuffle_loop (Suc k) cs g =
     (let i = Suc k;
          (r, g') = rand g;
          j = r mod (i + 1);
          temp = cs ! i;
          cs1 = cs[i := cs ! j];
          cs2 = cs1[j := temp]
      in shuffle_loop k cs2 g')"

definition shuffleDeck :: "DeckOfCards \<Rightarrow> rand_src \<Rightarrow> DeckOfCards \<times> rand_src" where
  "shuffleDeck deck g =
     (case shuffle_loop (length (cards deck) - 1) (cards deck) g of
        (cs, g') \<Rightarrow> (deck\<lparr>cards := cs\<rparr>, g'))"

text \<open>
  \<open>customSort\<close>: bubble sort on the rank alone. \<open>sort_inner\<close> is the loop on \<open>j\<close> with
  its bound \<open>size - i - 1\<close>, \<open>sort_outer\<close> the loop on \<open>i\<close>; \<open>n\<close> is \<open>deck->size\<close>,
  which the sort does not change.
\<close>

function sort_inner :: "nat \<Rightarrow> nat \<Rightarrow> PlayingCard list \<Rightarrow> PlayingCard list" where
  "sort_inner j lim cs =
     (if j < lim then
        sort_inner (j + 1) lim
          (if rank_val (rank (cs ! j)) > rank_val (rank (cs ! (j + 1)))
           then (let temp = cs ! j; cs1 = cs[j := cs ! (j + 1)] in cs1[j + 1 := temp])
           else cs)
      else cs)"
  by pat_completeness auto
termination
  by (relation "measure (\<lambda>(j, lim, cs). lim - j)") auto

function sort_outer :: "nat \<Rightarrow> nat \<Rightarrow> PlayingCard list \<Rightarrow> PlayingCard list" where
  "sort_outer i n cs =
     (if i < n - 1 then sort_outer (i + 1) n (sort_inner 0 (n - i - 1) cs) else cs)"
  by pat_completeness auto
termination
  by (relation "measure (\<lambda>(i, n, cs). n - 1 - i)") auto

definition customSort :: "DeckOfCards \<Rightarrow> DeckOfCards" where
  "customSort deck = deck\<lparr>cards := sort_outer 0 (length (cards deck)) (cards deck)\<rparr>"

section \<open>Turn resolver (cardgame.c)\<close>

definition canPlayCard :: "PlayingCard \<Rightarrow> PlayingCard \<Rightarrow> bool" where
  "canPlayCard crd topc = (rank crd = rank topc \<or> suit crd = suit topc)"

text \<open>
  Lines 180 to 187 of \<open>takeTurn\<close>: the card the hand is matched against. The test
  \<open>topCard.rank == 0\<close> is on the integer value of the rank.
\<close>

definition referenceCard ::
  "DeckOfCards \<Rightarrow> DeckOfCards \<Rightarrow> error + (PlayingCard \<times> DeckOfCards)" where
  "referenceCard hiddenDeck playedDeck =
     (let topc = topCard playedDeck
      in if rank_val (rank topc) = 0 then drawCard hiddenDeck
         else Inr (topc, hiddenDeck))"

text \<open>
  Lines 189 to 195: the scan for \<open>matchIndex\<close>, which stays \<open>-1\<close> when no card of the
  hand can be played; the \<open>break\<close> is the return at the first match.
\<close>

function scan_hand :: "nat \<Rightarrow> PlayingCard list \<Rightarrow> PlayingCard \<Rightarrow> int" where
  "scan_hand i cs topc =
     (if i < length cs then
        (if canPlayCard (cs ! i) topc then int i else scan_hand (i + 1) cs topc)
      else - 1)"
  by pat_completeness auto
termination
  by (relation "measure (\<lambda>(i, cs, topc). length cs - i)") auto

text \<open>
  Lines 203 to 205: the cells after the played card move one place down; \<open>n\<close> is the
  size already decremented.
\<close>

function shift_down :: "nat \<Rightarrow> nat \<Rightarrow> PlayingCard list \<Rightarrow> PlayingCard list" where
  "shift_down i n cs = (if i < n then shift_down (i + 1) n (cs[i := cs ! (i + 1)]) else cs)"
  by pat_completeness auto
termination
  by (relation "measure (\<lambda>(i, n, cs). n - i)") auto

text \<open>
  Lines 189 to 217: play the first matching card or draw one. The three decks are
  distinct objects in every call of the program, so each is a value of its own.
\<close>

definition playOrDraw ::
  "DeckOfCards \<Rightarrow> DeckOfCards \<Rightarrow> DeckOfCards \<Rightarrow> PlayingCard
     \<Rightarrow> error + (DeckOfCards \<times> DeckOfCards \<times> DeckOfCards)" where
  "playOrDraw hiddenDeck player playedDeck topc =
     (let matchIndex = scan_hand 0 (cards player) topc
      in if matchIndex \<noteq> - 1 then
           let m = nat matchIndex;
               played1 = playedDeck\<lparr>topCard := cards player ! m\<rparr>;
               played2 = addCardToDeck played1 (cards player ! m);
               n = length (cards player) - 1;
               player1 = player\<lparr>cards := take n (shift_down m n (cards player))\<rparr>
           in Inr (hiddenDeck, player1, played2)
         else
           (case drawCard hiddenDeck of
              Inl e \<Rightarrow> Inl e
            | Inr (drawnCard, hidden1) \<Rightarrow>
                Inr (hidden1, addCardToDeck player drawnCard, playedDeck)))"

text \<open>
  Lines 219 to 231: the reshuffle. The copy loop writes cell \<open>i\<close> of the hidden deck from
  cell \<open>i\<close> of the played deck; only the rank of the cached top card is reset.
\<close>

definition reshuffle ::
  "DeckOfCards \<Rightarrow> DeckOfCards \<Rightarrow> rand_src \<Rightarrow> DeckOfCards \<times> DeckOfCards \<times> rand_src" where
  "reshuffle hiddenDeck playedDeck g =
     (if length (cards hiddenDeck) = 0 then
        let hidden1 = hiddenDeck\<lparr>cards :=
                        map (\<lambda>i. cards playedDeck ! i) [0 ..< length (cards playedDeck)]\<rparr>;
            played1 = playedDeck\<lparr>cards := [],
                                 topCard := (topCard playedDeck)\<lparr>rank := rank_of_val 0\<rparr>\<rparr>;
            (hidden2, g') = shuffleDeck hidden1 g
        in (hidden2, played1, g')
      else (hiddenDeck, playedDeck, g))"

text \<open>
  \<open>takeTurn\<close>. The narration on standard output is left out; \<open>currentPlayer\<close> is used for
  nothing else. The result is the hidden deck, the hand, the played deck and the rest of
  the random source.
\<close>

definition takeTurn ::
  "DeckOfCards \<Rightarrow> DeckOfCards \<Rightarrow> DeckOfCards \<Rightarrow> PlayerTurn \<Rightarrow> rand_src
     \<Rightarrow> error + (DeckOfCards \<times> DeckOfCards \<times> DeckOfCards \<times> rand_src)" where
  "takeTurn hiddenDeck player playedDeck currentPlayer g =
     (case referenceCard hiddenDeck playedDeck of
        Inl e \<Rightarrow> Inl e
      | Inr (topc, hidden1) \<Rightarrow>
          (case playOrDraw hidden1 player playedDeck topc of
             Inl e \<Rightarrow> Inl e
           | Inr (hidden2, player2, played2) \<Rightarrow>
               (case reshuffle hidden2 played2 g of
                  (hidden3, played3, g') \<Rightarrow> Inr (hidden3, player2, played3, g'))))"

section \<open>Game loop (cardgame.c, main.c)\<close>

definition isGameFinished :: "DeckOfCards \<Rightarrow> DeckOfCards \<Rightarrow> bool" where
  "isGameFinished p1 p2 = (length (cards p1) = 0 \<or> length (cards p2) = 0)"

record Game =
  hiddenDeck :: DeckOfCards
  player1 :: DeckOfCards
  player2 :: DeckOfCards
  playedDeck :: DeckOfCards
  currentPlayer :: PlayerTurn
  randSrc :: rand_src

text \<open>One pass through the body of the \<open>while\<close> loop of \<open>startGame\<close>.\<close>

definition gameStep :: "Game \<Rightarrow> error + Game" where
  "gameStep s =
     (case takeTurn (hiddenDeck s)
             (if currentPlayer s = PlayerOne then player1 s else player2 s)
             (playedDeck s) (currentPlayer s) (randSrc s) of
        Inl e \<Rightarrow> Inl e
      | Inr (h, p, d, g') \<Rightarrow>
          Inr (if currentPlayer s = PlayerOne
               then s\<lparr>hiddenDeck := h, player1 := p, playedDeck := d,
                      currentPlayer := PlayerTwo, randSrc := g'\<rparr>
               else s\<lparr>hiddenDeck := h, player2 := p, playedDeck := d,
                      currentPlayer := PlayerOne, randSrc := g'\<rparr>))"

text \<open>
  The deal of \<open>main\<close>: \<open>k\<close> rounds, each drawing a card for player one and then one for
  player two.
\<close>

fun deal ::
  "nat \<Rightarrow> DeckOfCards \<Rightarrow> DeckOfCards \<Rightarrow> DeckOfCards
     \<Rightarrow> error + (DeckOfCards \<times> DeckOfCards \<times> DeckOfCards)" where
  "deal 0 h p1 p2 = Inr (h, p1, p2)"
| "deal (Suc k) h p1 p2 =
     (case drawCard h of
        Inl e \<Rightarrow> Inl e
      | Inr (c1, h1) \<Rightarrow>
          (case drawCard h1 of
             Inl e \<Rightarrow> Inl e
           | Inr (c2, h2) \<Rightarrow> deal k h2 (addCardToDeck p1 c1) (addCardToDeck p2 c2)))"

text \<open>
  The state in which \<open>main\<close> calls \<open>startGame\<close>, for the pack count read from the user
  and the random source seeded by \<open>srand\<close>.
\<close>

definition initGame :: "int \<Rightarrow> rand_src \<Rightarrow> error + Game" where
  "initGame numPacks g =
     (case shuffleDeck (initializeDeck numPacks) g of
        (hidden, g') \<Rightarrow>
          (case deal 8 hidden emptyDeck emptyDeck of
             Inl e \<Rightarrow> Inl e
           | Inr (h, p1, p2) \<Rightarrow>
               Inr \<lparr>hiddenDeck = h, player1 = customSort p1, player2 = customSort p2,
                    playedDeck = emptyDeck, currentPlayer = PlayerOne, randSrc = g'\<rparr>))"

text \<open>
  The states of a game: the one \<open>main\<close> builds for a pack count from one to ten, and
  every state a turn of the loop of \<open>startGame\<close> leads to from an unfinished one.
\<close>

inductive reachable :: "Game \<Rightarrow> bool" where
  start: "1 \<le> numPacks \<Longrightarrow> numPacks \<le> 10 \<Longrightarrow> initGame numPacks g = Inr s \<Longrightarrow> reachable s"
| turn: "reachable s \<Longrightarrow> \<not> isGameFinished (player1 s) (player2 s)
           \<Longrightarrow> gameStep s = Inr s' \<Longrightarrow> reachable s'"

section \<open>Concrete values and auxiliary definitions\<close>

text \<open>A random source whose every result is zero, for the concrete runs below.\<close>

definition rand_zero :: rand_src where
  "rand_zero = (\<lambda>n. 0)"

abbreviation Card :: "Suit \<Rightarrow> Rank \<Rightarrow> PlayingCard" where
  "Card s r \<equiv> \<lparr>suit = s, rank = r\<rparr>"

abbreviation Deck :: "PlayingCard list \<Rightarrow> PlayingCard \<Rightarrow> DeckOfCards" where
  "Deck cs t \<equiv> \<lparr>cards = cs, topCard = t\<rparr>"

text \<open>
  A game run: the state \<open>main\<close> builds for one pack with the source \<open>rand_zero\<close>, and
  the states after the first and the second turn.
\<close>

definition game_start :: Game where
  "game_start =
     \<lparr>hiddenDeck = Deck
       [Card Club Three, Card Club Four, Card Club Five, Card Club Six,
        Card Club Seven, Card Club Eight, Card Club Nine, Card Club Ten,
        Card Club Jack, Card Club Queen, Card Club King, Card Club Ace,
        Card Spade Two, Card Spade Three, Card Spade Four, Card Spade Five,
        Card Spade Six, Card Spade Seven, Card Spade Eight, Card Spade Nine,
        Card Spade Ten, Card Spade Jack, Card Spade Queen, Card Spade King,
        Card Spade Ace, Card Heart Two, Card Heart Three, Card Heart Four,
        Card Heart Five, Card Heart Six, Card Heart Seven, Card Heart Eight,
        Card Heart Nine, Card Heart Ten, Card Heart Jack, Card Heart Queen]
       (Card Club Two),
      player1 = Deck
       [Card Club Two, Card Diamond Three, Card Diamond Five, Card Diamond Seven,
        Card Diamond Nine, Card Diamond Jack, Card Diamond King, Card Heart Ace]
       (Card Club Two),
      player2 = Deck
       [Card Diamond Two, Card Diamond Four, Card Diamond Six, Card Diamond Eight,
        Card Diamond Ten, Card Diamond Queen, Card Heart King, Card Diamond Ace]
       (Card Club Two),
      playedDeck = Deck [] (Card Club Two),
      currentPlayer = PlayerOne, randSrc = rand_zero\<rparr>"

definition game_turn1 :: Game where
  "game_turn1 =
     \<lparr>hiddenDeck = Deck
       [Card Club Three, Card Club Four, Card Club Five, Card Club Six,
        Card Club Seven, Card Club Eight, Card Club Nine, Card Club Ten,
        Card Club Jack, Card Club Queen, Card Club King, Card Club Ace,
        Card Spade Two, Card Spade Three, Card Spade Four, Card Spade Five,
        Card Spade Six, Card Spade Seven, Card Spade Eight, Card Spade Nine,
        Card Spade Ten, Card Spade Jack, Card Spade Queen, Card Spade King,
        Card Spade Ace, Card Heart Two, Card Heart Three, Card Heart Four,
        Card Heart Five, Card Heart Six, Card Heart Seven, Card Heart Eight,
        Card Heart Nine, Card Heart Ten, Card Heart Jack]
       (Card Club Two),
      player1 = Deck
       [Card Club Two, Card Diamond Three, Card Diamond Five, Card Diamond Seven,
        Card Diamond Nine, Card Diamond Jack, Card Diamond King]
       (Card Club Two),
      player2 = Deck
       [Card Diamond Two, Card Diamond Four, Card Diamond Six, Card Diamond Eight,
        Card Diamond Ten, Card Diamond Queen, Card Heart King, Card Diamond Ace]
       (Card Club Two),
      playedDeck = Deck [Card Heart Ace] (Card Heart Ace),
      currentPlayer = PlayerTwo, randSrc = rand_zero\<rparr>"

definition game_turn2 :: Game where
  "game_turn2 =
     \<lparr>hiddenDeck = Deck
       [Card Club Three, Card Club Four, Card Club Five, Card Club Six,
        Card Club Seven, Card Club Eight, Card Club Nine, Card Club Ten,
        Card Club Jack, Card Club Queen, Card Club King, Card Club Ace,
        Card Spade Two, Card Spade Three, Card Spade Four, Card Spade Five,
        Card Spade Six, Card Spade Seven, Card Spade Eight, Card Spade Nine,
        Card Spade Ten, Card Spade Jack, Card Spade Queen, Card Spade King,
        Card Spade Ace, Card Heart Two, Card Heart Three, Card Heart Four,
        Card Heart Five, Card Heart Six, Card Heart Seven, Card Heart Eight,
        Card Heart Nine, Card Heart Ten, Card Heart Jack]
       (Card Club Two),
      player1 = Deck
       [Card Club Two, Card Diamond Three, Card Diamond Five, Card Diamond Seven,
        Card Diamond Nine, Card Diamond Jack, Card Diamond King]
       (Card Club Two),
      player2 = Deck
       [Card Diamond Two, Card Diamond Four, Card Diamond Six, Card Diamond Eight,
        Card Diamond Ten, Card Diamond Queen, Card Diamond Ace]
       (Card Club Two),
      playedDeck = Deck [Card Heart Ace, Card Heart King] (Card Heart King),
      currentPlayer = PlayerOne, randSrc = rand_zero\<rparr>"

text \<open>
  The cards one pass of the outer loop of \<open>initializeDeck\<close> adds, in the order of its two
  inner loops.
\<close>

definition one_pack :: "PlayingCard list" where
  "one_pack = concat (map (\<lambda>s. map (\<lambda>r. Card (suit_of_val s) (rank_of_val r)) [0 ..< 13]) [0 ..< 4])"

text \<open>The integer value of a card's rank, which \<open>customSort\<close> compares.\<close>

abbreviation rk :: "PlayingCard \<Rightarrow> nat" where
  "rk c \<equiv> rank_val (rank c)"

text \<open>The list after one comparison of the inner loop.\<close>

definition compare_swap :: "nat \<Rightarrow> PlayingCard list \<Rightarrow> PlayingCard list" where
  "compare_swap j cs =
     (if rk (cs ! j) > rk (cs ! (j + 1))
      then (let temp = cs ! j; cs1 = cs[j := cs ! (j + 1)] in cs1[j + 1 := temp])
      else cs)"

section \<open>Properties of the deck container\<close>

text \<open>
  The equations of the loops are unfolded by hand, one iteration at a time.
\<close>

declare sort_inner.simps [simp del] sort_outer.simps [simp del]
  scan_hand.simps [simp del] shift_down.simps [simp del]


lemma swap_mset:
  assumes "i < length cs" "j < length cs"
  shows "mset ((cs[i := cs ! j])[j := cs ! i]) = mset cs"
  using mset_swap [OF assms(2) assms(1)] by simp

lemma shuffle_loop_mset:
  "k < length cs \<or> k = 0 \<Longrightarrow> mset (fst (shuffle_loop k cs g)) = mset cs"
proof (induction k arbitrary: cs g)
  case 0
  then show ?case by simp
next
  case (Suc k)
  then have len: "Suc k < length cs" by auto
  let ?j = "fst (rand g) mod (Suc k + 1)"
  have "?j < Suc k + 1" by (rule mod_less_divisor) simp
  with len have j: "?j < length cs" by linarith
  let ?cs2 = "(cs[Suc k := cs ! ?j])[?j := cs ! Suc k]"
  have m: "mset ?cs2 = mset cs" using swap_mset [OF len j] .
  have "k < length ?cs2" using len by simp
  then have "mset (fst (shuffle_loop k ?cs2 (snd (rand g)))) = mset ?cs2"
    using Suc.IH by blast
  with m show ?case by (simp add: Let_def case_prod_unfold)
qed

lemma fold_addCard:
  "fold (\<lambda>x deck. addCardToDeck deck (f x)) xs deck = deck\<lparr>cards := cards deck @ map f xs\<rparr>"
  by (induction xs arbitrary: deck) (simp_all add: addCardToDeck_def)

lemma fold_append_cards:
  "fold (\<lambda>x deck. deck\<lparr>cards := cards deck @ f x\<rparr>) xs deck
   = deck\<lparr>cards := cards deck @ concat (map f xs)\<rparr>"
  by (induction xs arbitrary: deck) simp_all

lemma initializeDeck_cards:
  "initializeDeck numPacks = emptyDeck\<lparr>cards := concat (replicate (nat numPacks) one_pack)\<rparr>"
proof -
  have "initializeDeck numPacks
        = fold (\<lambda>pack deck. deck\<lparr>cards := cards deck @ one_pack\<rparr>) [0 ..< nat numPacks] emptyDeck"
    by (simp add: initializeDeck_def fold_addCard fold_append_cards one_pack_def)
  also have "\<dots> = emptyDeck\<lparr>cards := cards emptyDeck @ concat (map (\<lambda>pack. one_pack) [0 ..< nat numPacks])\<rparr>"
    by (rule fold_append_cards)
  also have "map (\<lambda>pack. one_pack) [0 ..< nat numPacks] = replicate (nat numPacks) one_pack"
    by (simp add: map_replicate_const)
  finally show ?thesis by (simp add: emptyDeck_def)
qed

lemma length_one_pack: "length one_pack = 52"
  by code_simp

lemma all_suits: "s \<in> set [Club, Spade, Heart, Diamond]"
  by (cases s) simp_all

lemma all_ranks:
  "r \<in> set [Two, Three, Four, Five, Six, Seven, Eight, Nine, Ten, Jack, Queen, King, Ace]"
  by (cases r) simp_all

lemma count_one_pack_all:
  "\<forall>s\<in>set [Club, Spade, Heart, Diamond].
     \<forall>r\<in>set [Two, Three, Four, Five, Six, Seven, Eight, Nine, Ten, Jack, Queen, King, Ace].
       count_list one_pack (Card s r) = 1"
  by code_simp

lemma count_one_pack: "count_list one_pack c = 1"
proof -
  obtain s r where c: "c = Card s r" by (cases c) simp
  from count_one_pack_all all_suits [of s] all_ranks [of r] show ?thesis
    unfolding c by blast
qed

lemma count_concat_replicate:
  "count_list (concat (replicate k xs)) c = k * count_list xs c"
  by (induction k) simp_all

lemma nth_concat_replicate:
  "p < k \<Longrightarrow> i < length xs \<Longrightarrow> concat (replicate k xs) ! (length xs * p + i) = xs ! i"
proof (induction k arbitrary: p)
  case 0
  then show ?case by simp
next
  case (Suc k)
  show ?case
  proof (cases p)
    case 0
    with Suc.prems show ?thesis by (simp add: nth_append)
  next
    case (Suc q)
    with Suc.prems have "q < k" by simp
    from Suc.IH [OF this Suc.prems(2)] Suc show ?thesis
      by (simp add: nth_append)
  qed
qed

lemma nth_one_pack_all:
  "\<forall>s\<in>set [0 ..< 4]. \<forall>r\<in>set [0 ..< 13].
     one_pack ! (13 * s + r) = Card (suit_of_val s) (rank_of_val r)"
  by code_simp

lemma nth_one_pack:
  "s < 4 \<Longrightarrow> r < 13 \<Longrightarrow> one_pack ! (13 * s + r) = Card (suit_of_val s) (rank_of_val r)"
  using nth_one_pack_all by simp

lemma sort_inner_step:
  "sort_inner j lim cs = (if j < lim then sort_inner (j + 1) lim (compare_swap j cs) else cs)"
  by (subst sort_inner.simps) (simp add: compare_swap_def)

lemma compare_swap_length: "length (compare_swap j cs) = length cs"
  by (simp add: compare_swap_def Let_def)

lemma compare_swap_nth:
  "j + 1 < length cs \<Longrightarrow> k < length cs \<Longrightarrow>
     compare_swap j cs ! k =
       (if rk (cs ! j) > rk (cs ! (j + 1))
        then (if k = j then cs ! (j + 1) else if k = j + 1 then cs ! j else cs ! k)
        else cs ! k)"
  by (auto simp: compare_swap_def Let_def nth_list_update)

lemma sort_inner_length: "length (sort_inner j lim cs) = length cs"
proof (induction j lim cs rule: sort_inner.induct)
  case (1 j lim cs)
  show ?case
  proof (cases "j < lim")
    case True
    with 1 have "length (sort_inner (j + 1) lim (compare_swap j cs)) = length (compare_swap j cs)"
      by (simp add: compare_swap_def)
    with True show ?thesis
      by (simp add: sort_inner_step [of j lim cs] compare_swap_length)
  next
    case False
    then show ?thesis by (simp add: sort_inner_step [of j lim cs])
  qed
qed


lemma sort_inner_outside:
  "lim < length cs \<Longrightarrow> k < length cs \<Longrightarrow> k < j \<or> lim < k \<Longrightarrow>
     sort_inner j lim cs ! k = cs ! k"
proof (induction "lim - j" arbitrary: j cs)
  case 0
  then show ?case by (simp add: sort_inner_step [of j lim cs])
next
  case (Suc d)
  then have jl: "j < lim" by simp
  let ?cs = "compare_swap j cs"
  have len: "length ?cs = length cs" by (rule compare_swap_length)
  from Suc.prems jl have kk: "k \<noteq> j" "k \<noteq> j + 1" by auto
  have dd: "d = lim - (j + 1)" using Suc.hyps(2) by simp
  have "sort_inner (j + 1) lim ?cs ! k = ?cs ! k"
    using Suc.hyps(1) [OF dd] Suc.prems jl len by auto
  also have "?cs ! k = cs ! k"
    using compare_swap_nth [of j cs k] Suc.prems jl kk by simp
  finally show ?case using jl by (simp add: sort_inner_step [of j lim cs])
qed

lemma sort_inner_origin:
  "lim < length cs \<Longrightarrow> k \<le> lim \<Longrightarrow> \<exists>k'\<le>lim. sort_inner j lim cs ! k = cs ! k'"
proof (induction "lim - j" arbitrary: j cs)
  case 0
  then show ?case by (auto simp: sort_inner_step [of j lim cs])
next
  case (Suc d)
  then have jl: "j < lim" by simp
  let ?cs = "compare_swap j cs"
  have len: "length ?cs = length cs" by (rule compare_swap_length)
  have dd: "d = lim - (j + 1)" using Suc.hyps(2) by simp
  have "\<exists>k'\<le>lim. sort_inner (j + 1) lim ?cs ! k = ?cs ! k'"
    using Suc.hyps(1) [OF dd] Suc.prems len by simp
  then obtain k' where k': "k' \<le> lim" "sort_inner (j + 1) lim ?cs ! k = ?cs ! k'"
    by blast
  have "\<exists>k''\<le>lim. ?cs ! k' = cs ! k''"
    using compare_swap_nth [of j cs k'] Suc.prems(1) jl k'(1)
    by (auto split: if_splits intro: exI [of _ j] exI [of _ "j + 1"] exI [of _ k'])
  with k'(2) jl show ?case by (simp add: sort_inner_step [of j lim cs])
qed

lemma sort_inner_max:
  "lim < length cs \<Longrightarrow> j \<le> lim \<Longrightarrow> \<forall>k<j. rk (cs ! k) \<le> rk (cs ! j) \<Longrightarrow> k \<le> lim \<Longrightarrow>
     rk (sort_inner j lim cs ! k) \<le> rk (sort_inner j lim cs ! lim)"
proof (induction "lim - j" arbitrary: j cs)
  case 0
  then have "j = lim" by simp
  with 0 show ?case
    by (cases "k = lim") (simp_all add: sort_inner_step [of lim lim cs])
next
  case (Suc d)
  then have jl: "j < lim" by simp
  let ?cs = "compare_swap j cs"
  have len: "length ?cs = length cs" by (rule compare_swap_length)
  have pre: "\<forall>i<j + 1. rk (?cs ! i) \<le> rk (?cs ! (j + 1))"
  proof (intro allI impI)
    fix i
    assume i: "i < j + 1"
    show "rk (?cs ! i) \<le> rk (?cs ! (j + 1))"
    proof (cases "rk (cs ! j) > rk (cs ! (j + 1))")
      case True
      then have a: "?cs ! (j + 1) = cs ! j" and b: "?cs ! j = cs ! (j + 1)"
        and c: "i < j \<Longrightarrow> ?cs ! i = cs ! i"
        using compare_swap_nth [of j cs] Suc.prems(1) jl by auto
      show ?thesis
      proof (cases "i = j")
        case True
        with a b \<open>rk (cs ! j) > rk (cs ! (j + 1))\<close> show ?thesis by simp
      next
        case False
        with i have "i < j" by simp
        with a c Suc.prems(3) show ?thesis by simp
      qed
    next
      case False
      then have same: "?cs = cs" by (simp add: compare_swap_def)
      show ?thesis
      proof (cases "i = j")
        case True
        with same False show ?thesis by simp
      next
        case F: False
        with i have "i < j" by simp
        with Suc.prems(3) have "rk (cs ! i) \<le> rk (cs ! j)" by simp
        with same False show ?thesis by simp
      qed
    qed
  qed
  have dd: "d = lim - (j + 1)" using Suc.hyps(2) by simp
  have "rk (sort_inner (j + 1) lim ?cs ! k) \<le> rk (sort_inner (j + 1) lim ?cs ! lim)"
    using Suc.hyps(1) [OF dd] Suc.prems(1,4) jl len pre by simp
  with jl show ?case by (simp add: sort_inner_step [of j lim cs])
qed


lemma sort_outer_step:
  "sort_outer i n cs
   = (if i < n - 1 then sort_outer (i + 1) n (sort_inner 0 (n - i - 1) cs) else cs)"
  by (subst sort_outer.simps) simp

lemma sort_outer_length: "length (sort_outer i n cs) = length cs"
proof (induction "n - 1 - i" arbitrary: i cs)
  case 0
  then have "\<not> i < n - 1" by linarith
  then show ?case by (simp add: sort_outer_step [of i n cs])
next
  case (Suc d)
  then have il: "i < n - 1" by simp
  have dd: "d = n - 1 - (i + 1)" using Suc.hyps(2) by simp
  from Suc.hyps(1) [OF dd, of "sort_inner 0 (n - i - 1) cs"] il show ?case
    by (simp add: sort_outer_step [of i n cs] sort_inner_length)
qed

lemma sort_outer_sorted:
  assumes "length cs = n"
    and "\<forall>a b. n - i \<le> a \<and> a \<le> b \<and> b < n \<longrightarrow> rk (cs ! a) \<le> rk (cs ! b)"
    and "\<forall>a b. a < n - i \<and> n - i \<le> b \<and> b < n \<longrightarrow> rk (cs ! a) \<le> rk (cs ! b)"
    and "a \<le> b" and "b < n"
  shows "rk (sort_outer i n cs ! a) \<le> rk (sort_outer i n cs ! b)"
  using assms
proof (induction "n - 1 - i" arbitrary: i cs)
  case 0
  then have i: "n - 1 \<le> i" by simp
  have "rk (cs ! a) \<le> rk (cs ! b)"
  proof (cases "n - i \<le> a")
    case True
    with 0 show ?thesis by blast
  next
    case False
    show ?thesis
    proof (cases "a = b")
      case True
      then show ?thesis by simp
    next
      case F: False
      with \<open>a \<le> b\<close> have "a < b" by simp
      with False i \<open>b < n\<close> have "a < n - i \<and> n - i \<le> b \<and> b < n" by linarith
      with "0.prems"(3) show ?thesis by blast
    qed
  qed
  with i show ?case by (simp add: sort_outer_step [of i n cs])
next
  case (Suc d)
  then have il: "i < n - 1" by simp
  let ?lim = "n - i - 1"
  let ?cs = "sort_inner 0 ?lim cs"
  have lim: "?lim < length cs" "n - i = ?lim + 1" "n - (i + 1) = ?lim"
    using il Suc.prems(1) by simp_all
  have len: "length ?cs = n" using Suc.prems(1) by (simp add: sort_inner_length)
  have dd: "d = n - 1 - (i + 1)" using Suc.hyps(2) by simp
  have out: "\<And>k. ?lim < k \<Longrightarrow> k < n \<Longrightarrow> ?cs ! k = cs ! k"
    using sort_inner_outside [OF lim(1), of _ 0] Suc.prems(1) by simp
  have org: "\<And>k. k \<le> ?lim \<Longrightarrow> \<exists>k'\<le>?lim. ?cs ! k = cs ! k'"
    using sort_inner_origin [OF lim(1)] by simp
  have mx: "\<And>k. k \<le> ?lim \<Longrightarrow> rk (?cs ! k) \<le> rk (?cs ! ?lim)"
    using sort_inner_max [OF lim(1), of 0] by simp
  have low_high: "rk (?cs ! x) \<le> rk (?cs ! y)" if "x \<le> ?lim" "?lim < y" "y < n" for x y
  proof -
    from org [OF that(1)] obtain k' where k': "k' \<le> ?lim" "?cs ! x = cs ! k'" by blast
    from k'(1) that lim(2) have "k' < n - i \<and> n - i \<le> y \<and> y < n" by linarith
    with Suc.prems(3) have "rk (cs ! k') \<le> rk (cs ! y)" by blast
    with k'(2) out [OF that(2,3)] show ?thesis by simp
  qed
  have S: "\<forall>x y. n - (i + 1) \<le> x \<and> x \<le> y \<and> y < n \<longrightarrow> rk (?cs ! x) \<le> rk (?cs ! y)"
  proof (intro allI impI)
    fix x y
    assume xy: "n - (i + 1) \<le> x \<and> x \<le> y \<and> y < n"
    show "rk (?cs ! x) \<le> rk (?cs ! y)"
    proof (cases "x = y")
      case True
      then show ?thesis by simp
    next
      case False
      with xy have "x < y" by simp
      show ?thesis
      proof (cases "x = ?lim")
        case True
        with \<open>x < y\<close> xy low_high [of x y] show ?thesis by simp
      next
        case F: False
        with xy lim(3) have x: "?lim < x" by linarith
        with xy lim(2) have "n - i \<le> x \<and> x \<le> y \<and> y < n" by linarith
        with Suc.prems(2) have "rk (cs ! x) \<le> rk (cs ! y)" by blast
        moreover from x xy have "?cs ! x = cs ! x" "?cs ! y = cs ! y"
          using out [of x] out [of y] by simp_all
        ultimately show ?thesis by simp
      qed
    qed
  qed
  have P: "\<forall>x y. x < n - (i + 1) \<and> n - (i + 1) \<le> y \<and> y < n \<longrightarrow> rk (?cs ! x) \<le> rk (?cs ! y)"
  proof (intro allI impI)
    fix x y
    assume xy: "x < n - (i + 1) \<and> n - (i + 1) \<le> y \<and> y < n"
    show "rk (?cs ! x) \<le> rk (?cs ! y)"
    proof (cases "y = ?lim")
      case True
      with xy lim(3) mx [of x] show ?thesis by simp
    next
      case False
      with xy lim(3) have "x \<le> ?lim" "?lim < y" "y < n" by linarith+
      then show ?thesis by (rule low_high)
    qed
  qed
  have "rk (sort_outer (i + 1) n ?cs ! a) \<le> rk (sort_outer (i + 1) n ?cs ! b)"
    using Suc.hyps(1) [OF dd len S P Suc.prems(4,5)] .
  with il show ?case by (simp add: sort_outer_step [of i n cs])
qed

lemma sort_inner_sorted_id:
  "\<forall>k. j \<le> k \<and> k < lim \<longrightarrow> rk (cs ! k) \<le> rk (cs ! (k + 1)) \<Longrightarrow> sort_inner j lim cs = cs"
proof (induction "lim - j" arbitrary: j)
  case 0
  then show ?case by (simp add: sort_inner_step [of j lim cs])
next
  case (Suc d)
  then have jl: "j < lim" by simp
  with Suc.prems have "rk (cs ! j) \<le> rk (cs ! (j + 1))" by simp
  then have same: "compare_swap j cs = cs" by (simp add: compare_swap_def)
  have dd: "d = lim - (j + 1)" using Suc.hyps(2) by simp
  have "sort_inner (j + 1) lim cs = cs"
    using Suc.hyps(1) [OF dd] Suc.prems by simp
  with jl same show ?case by (simp add: sort_inner_step [of j lim cs])
qed

lemma sort_outer_sorted_id:
  "\<forall>k. k + 1 < n \<longrightarrow> rk (cs ! k) \<le> rk (cs ! (k + 1)) \<Longrightarrow> sort_outer i n cs = cs"
proof (induction "n - 1 - i" arbitrary: i)
  case 0
  then have "\<not> i < n - 1" by linarith
  then show ?case by (simp add: sort_outer_step [of i n cs])
next
  case (Suc d)
  then have il: "i < n - 1" by simp
  have "\<forall>k. 0 \<le> k \<and> k < n - i - 1 \<longrightarrow> rk (cs ! k) \<le> rk (cs ! (k + 1))"
    using Suc.prems by simp
  then have inner: "sort_inner 0 (n - i - 1) cs = cs" by (rule sort_inner_sorted_id)
  have dd: "d = n - 1 - (i + 1)" using Suc.hyps(2) by simp
  from Suc.hyps(1) [OF dd Suc.prems] il inner show ?case
    by (simp add: sort_outer_step [of i n cs])
qed

section \<open>Properties of the turn resolver\<close>

lemma scan_hand_none:
  "(scan_hand i cs topc = - 1) = (\<forall>k. i \<le> k \<and> k < length cs \<longrightarrow> \<not> canPlayCard (cs ! k) topc)"
proof (induction i cs topc rule: scan_hand.induct)
  case (1 i cs topc)
  show ?case
  proof (cases "i < length cs")
    case False
    then show ?thesis using scan_hand.simps [of i cs topc] by auto
  next
    case True
    show ?thesis
    proof (cases "canPlayCard (cs ! i) topc")
      case True
      with \<open>i < length cs\<close> show ?thesis
        using scan_hand.simps [of i cs topc] by auto
    next
      case False
      have "(\<forall>k. i \<le> k \<and> k < length cs \<longrightarrow> \<not> canPlayCard (cs ! k) topc)
            = (\<forall>k. i + 1 \<le> k \<and> k < length cs \<longrightarrow> \<not> canPlayCard (cs ! k) topc)"
        using False by (metis Suc_eq_plus1 Suc_leI le_neq_implies_less Suc_leD)
      with 1 True False show ?thesis
        using scan_hand.simps [of i cs topc] by simp
    qed
  qed
qed

lemma scan_hand_some:
  "scan_hand i cs topc \<noteq> - 1 \<Longrightarrow>
     \<exists>m. scan_hand i cs topc = int m \<and> i \<le> m \<and> m < length cs \<and> canPlayCard (cs ! m) topc
         \<and> (\<forall>k. i \<le> k \<and> k < m \<longrightarrow> \<not> canPlayCard (cs ! k) topc)"
proof (induction i cs topc rule: scan_hand.induct)
  case (1 i cs topc)
  show ?case
  proof (cases "i < length cs")
    case False
    with 1(2) show ?thesis using scan_hand.simps [of i cs topc] by simp
  next
    case True
    show ?thesis
    proof (cases "canPlayCard (cs ! i) topc")
      case True
      with \<open>i < length cs\<close> have "scan_hand i cs topc = int i"
        using scan_hand.simps [of i cs topc] by simp
      with True \<open>i < length cs\<close> show ?thesis by auto
    next
      case False
      with True have eq: "scan_hand i cs topc = scan_hand (i + 1) cs topc"
        using scan_hand.simps [of i cs topc] by simp
      with 1(2) have "scan_hand (i + 1) cs topc \<noteq> - 1" by simp
      from 1(1) [OF True False this] obtain m where
        m: "scan_hand (i + 1) cs topc = int m" "i + 1 \<le> m" "m < length cs"
           "canPlayCard (cs ! m) topc"
           "\<forall>k. i + 1 \<le> k \<and> k < m \<longrightarrow> \<not> canPlayCard (cs ! k) topc"
        by blast
      have "\<forall>k. i \<le> k \<and> k < m \<longrightarrow> \<not> canPlayCard (cs ! k) topc"
        using m(5) False by (metis Suc_eq_plus1 Suc_leI le_neq_implies_less)
      with m eq show ?thesis by (intro exI [of _ m]) simp
    qed
  qed
qed

lemma scan_hand_first_match:
  assumes "m < length cs" "canPlayCard (cs ! m) topc" "\<forall>k<m. \<not> canPlayCard (cs ! k) topc"
  shows "scan_hand 0 cs topc = int m"
proof -
  from assms have "\<not> (\<forall>k. 0 \<le> k \<and> k < length cs \<longrightarrow> \<not> canPlayCard (cs ! k) topc)"
    by blast
  then have "scan_hand 0 cs topc \<noteq> - 1" using scan_hand_none [of 0 cs topc] by simp
  from scan_hand_some [OF this] obtain m' where
    m': "scan_hand 0 cs topc = int m'" "m' < length cs" "canPlayCard (cs ! m') topc"
        "\<forall>k. 0 \<le> k \<and> k < m' \<longrightarrow> \<not> canPlayCard (cs ! k) topc"
    by blast
  have "m' = m"
  proof (rule ccontr)
    assume "m' \<noteq> m"
    then consider "m' < m" | "m < m'" by linarith
    then show False
      using assms m' by cases auto
  qed
  with m'(1) show ?thesis by simp
qed

lemma shift_down_length: "length (shift_down i n cs) = length cs"
proof (induction i n cs rule: shift_down.induct)
  case (1 i n cs)
  then show ?case using shift_down.simps [of i n cs] by (cases "i < n") simp_all
qed

lemma shift_down_nth:
  "n < length cs \<Longrightarrow> k < length cs \<Longrightarrow>
     shift_down i n cs ! k = (if i \<le> k \<and> k < n then cs ! (k + 1) else cs ! k)"
proof (induction i n cs arbitrary: k rule: shift_down.induct)
  case (1 i n cs)
  show ?case
  proof (cases "i < n")
    case False
    then show ?thesis using shift_down.simps [of i n cs] by auto
  next
    case True
    let ?cs = "cs[i := cs ! (i + 1)]"
    have "shift_down (i + 1) n ?cs ! k = (if i + 1 \<le> k \<and> k < n then ?cs ! (k + 1) else ?cs ! k)"
      using 1(1) [OF True, of k] 1(2,3) by simp
    also have "\<dots> = (if i \<le> k \<and> k < n then cs ! (k + 1) else cs ! k)"
      using True 1(2,3) by (auto simp: nth_list_update)
    finally show ?thesis using True shift_down.simps [of i n cs] by simp
  qed
qed

lemma shift_down_remove:
  assumes "m < length cs"
  shows "take (length cs - 1) (shift_down m (length cs - 1) cs) = take m cs @ drop (m + 1) cs"
proof (rule nth_equalityI)
  show "length (take (length cs - 1) (shift_down m (length cs - 1) cs))
        = length (take m cs @ drop (m + 1) cs)"
    using assms by (simp add: shift_down_length)
next
  fix k
  assume "k < length (take (length cs - 1) (shift_down m (length cs - 1) cs))"
  then have k: "k < length cs - 1" by (simp add: shift_down_length)
  with assms have "shift_down m (length cs - 1) cs ! k = (if m \<le> k then cs ! (k + 1) else cs ! k)"
    using shift_down_nth [of "length cs - 1" cs k m] by simp
  moreover have "(take m cs @ drop (m + 1) cs) ! k = (if m \<le> k then cs ! (k + 1) else cs ! k)"
    using assms k by (auto simp: nth_append add.commute)
  ultimately show "take (length cs - 1) (shift_down m (length cs - 1) cs) ! k
                   = (take m cs @ drop (m + 1) cs) ! k"
    using k by simp
qed


lemma drawCard_nonempty:
  "cards deck \<noteq> [] \<Longrightarrow>
     drawCard deck = Inr (last (cards deck), deck\<lparr>cards := butlast (cards deck)\<rparr>)"
  by (simp add: drawCard_def butlast_conv_take last_conv_nth)

lemma drawCard_empty: "cards deck = [] \<Longrightarrow> drawCard deck = Inl EmptyDeckRead"
  by (simp add: drawCard_def)

lemma playOrDraw_match:
  assumes "m < length (cards player)" "canPlayCard (cards player ! m) topc"
    "\<forall>k<m. \<not> canPlayCard (cards player ! k) topc"
  shows "playOrDraw hidden player played topc
         = Inr (hidden,
                player\<lparr>cards := take m (cards player) @ drop (m + 1) (cards player)\<rparr>,
                played\<lparr>cards := cards played @ [cards player ! m],
                       topCard := cards player ! m\<rparr>)"
proof -
  have s: "scan_hand 0 (cards player) topc = int m"
    using scan_hand_first_match [OF assms] .
  have r: "take (length (cards player) - 1) (shift_down m (length (cards player) - 1) (cards player))
           = take m (cards player) @ drop (m + 1) (cards player)"
    using shift_down_remove [OF assms(1)] .
  show ?thesis
    unfolding playOrDraw_def s using r by (simp add: Let_def addCardToDeck_def)
qed

lemma playOrDraw_nomatch:
  assumes "\<forall>k<length (cards player). \<not> canPlayCard (cards player ! k) topc"
  shows "playOrDraw hidden player played topc
         = (case drawCard hidden of
              Inl e \<Rightarrow> Inl e
            | Inr (drawnCard, hidden1) \<Rightarrow> Inr (hidden1, addCardToDeck player drawnCard, played))"
proof -
  have "scan_hand 0 (cards player) topc = - 1"
    using assms scan_hand_none [of 0 "cards player" topc] by simp
  then show ?thesis by (simp add: playOrDraw_def)
qed

lemma first_match_exists:
  assumes "\<exists>k<length cs. canPlayCard (cs ! k) topc"
  shows "\<exists>m. m < length cs \<and> canPlayCard (cs ! m) topc \<and> (\<forall>k<m. \<not> canPlayCard (cs ! k) topc)"
proof -
  from assms have "scan_hand 0 cs topc \<noteq> - 1"
    using scan_hand_none [of 0 cs topc] by auto
  from scan_hand_some [OF this] show ?thesis by auto
qed

lemma playOrDraw_cases:
  assumes "playOrDraw h p d topc = Inr (h2, p2, d2)"
  shows "(\<exists>m. m < length (cards p) \<and> canPlayCard (cards p ! m) topc
             \<and> (\<forall>k<m. \<not> canPlayCard (cards p ! k) topc)
             \<and> h2 = h
             \<and> p2 = p\<lparr>cards := take m (cards p) @ drop (m + 1) (cards p)\<rparr>
             \<and> d2 = d\<lparr>cards := cards d @ [cards p ! m], topCard := cards p ! m\<rparr>)
       \<or> ((\<forall>k<length (cards p). \<not> canPlayCard (cards p ! k) topc)
           \<and> cards h \<noteq> []
           \<and> h2 = h\<lparr>cards := butlast (cards h)\<rparr>
           \<and> p2 = p\<lparr>cards := cards p @ [last (cards h)]\<rparr>
           \<and> d2 = d)"
proof (cases "\<exists>k<length (cards p). canPlayCard (cards p ! k) topc")
  case True
  from first_match_exists [OF True] obtain m where
    m: "m < length (cards p)" "canPlayCard (cards p ! m) topc"
       "\<forall>k<m. \<not> canPlayCard (cards p ! k) topc"
    by blast
  from playOrDraw_match [OF m, of h d] assms
  have "h2 = h \<and> p2 = p\<lparr>cards := take m (cards p) @ drop (m + 1) (cards p)\<rparr>
        \<and> d2 = d\<lparr>cards := cards d @ [cards p ! m], topCard := cards p ! m\<rparr>"
    by simp
  with m show ?thesis by blast
next
  case False
  then have nm: "\<forall>k<length (cards p). \<not> canPlayCard (cards p ! k) topc" by blast
  have ne: "cards h \<noteq> []"
  proof
    assume "cards h = []"
    with assms playOrDraw_nomatch [OF nm, of h d] show False
      by (simp add: drawCard_empty)
  qed
  from assms playOrDraw_nomatch [OF nm, of h d] drawCard_nonempty [OF ne]
  have "h2 = h\<lparr>cards := butlast (cards h)\<rparr> \<and> p2 = p\<lparr>cards := cards p @ [last (cards h)]\<rparr>
        \<and> d2 = d"
    by (simp add: addCardToDeck_def)
  with nm ne show ?thesis by blast
qed

lemma playOrDraw_count:
  assumes "playOrDraw h p d topc = Inr (h2, p2, d2)"
  shows "length (cards h2) + length (cards p2) + length (cards d2)
         = length (cards h) + length (cards p) + length (cards d)"
  using playOrDraw_cases [OF assms] by (elim disjE exE conjE) auto

lemma reshuffle_keep:
  "cards h \<noteq> [] \<Longrightarrow> reshuffle h d g = (h, d, g)"
  by (simp add: reshuffle_def)

lemma reshuffle_empty:
  assumes "cards h = []"
  shows "reshuffle h d g
         = (h\<lparr>cards := fst (shuffle_loop (length (cards d) - 1) (cards d) g)\<rparr>,
            d\<lparr>cards := [], topCard := (topCard d)\<lparr>rank := Two\<rparr>\<rparr>,
            snd (shuffle_loop (length (cards d) - 1) (cards d) g))"
  using assms
  by (simp add: reshuffle_def shuffleDeck_def map_nth rank_of_val_def case_prod_unfold Let_def)

lemma reshuffle_count:
  assumes "reshuffle h d g = (h', d', g')"
  shows "length (cards h') + length (cards d') = length (cards h) + length (cards d)"
proof (cases "cards h = []")
  case True
  have k: "length (cards d) - 1 < length (cards d) \<or> length (cards d) - 1 = 0"
    by (cases "cards d") auto
  have "length (fst (shuffle_loop (length (cards d) - 1) (cards d) g)) = length (cards d)"
    using mset_eq_length [OF shuffle_loop_mset [OF k, of g]] .
  with True assms reshuffle_empty [OF True, of d g] show ?thesis by auto
next
  case False
  with assms reshuffle_keep [OF False, of d g] show ?thesis by auto
qed

lemma takeTurn_parts:
  assumes "takeTurn h p d cur g = Inr (h', p', d', g')"
  shows "\<exists>topc h1 h2 d2. referenceCard h d = Inr (topc, h1)
           \<and> playOrDraw h1 p d topc = Inr (h2, p', d2)
           \<and> reshuffle h2 d2 g = (h', d', g')"
  using assms
  by (auto simp: takeTurn_def split: sum.splits prod.splits)

lemma referenceCard_cases:
  assumes "referenceCard h d = Inr (topc, h1)"
  shows "(rank_val (rank (topCard d)) \<noteq> 0 \<and> topc = topCard d \<and> h1 = h)
       \<or> (rank_val (rank (topCard d)) = 0 \<and> cards h \<noteq> [] \<and> topc = last (cards h)
           \<and> h1 = h\<lparr>cards := butlast (cards h)\<rparr>)"
proof (cases "rank_val (rank (topCard d)) = 0")
  case False
  with assms show ?thesis by (simp add: referenceCard_def)
next
  case True
  with assms have dr: "drawCard h = Inr (topc, h1)" by (simp add: referenceCard_def)
  have ne: "cards h \<noteq> []"
  proof
    assume "cards h = []"
    with dr show False by (simp add: drawCard_empty)
  qed
  from dr drawCard_nonempty [OF ne] True ne show ?thesis by simp
qed

text \<open>The definitions to unfold for a concrete run of a turn.\<close>

lemmas turn_eval = takeTurn_def referenceCard_def playOrDraw_def drawCard_def
  scan_hand.simps shift_down.simps canPlayCard_def addCardToDeck_def reshuffle_def
  shuffleDeck_def rand_def Let_def rank_of_val_def emptyDeck_def

section \<open>Properties of the game loop\<close>

lemma rand_rand_zero: "rand rand_zero = (0, rand_zero)"
  by (simp add: rand_def rand_zero_def)

lemma shuffle_loop_rand_zero: "snd (shuffle_loop k cs rand_zero) = rand_zero"
  by (induction k arbitrary: cs) (simp_all add: rand_rand_zero Let_def)

lemma shuffle_loop_rotate:
  "length bs = k \<Longrightarrow> fst (shuffle_loop k (a # bs @ rest) rand_zero) = bs @ a # rest"
proof (induction k arbitrary: a bs rest)
  case 0
  then show ?case by simp
next
  case (Suc k)
  then obtain bs' b where bs: "bs = bs' @ [b]" and len: "length bs' = k"
    by (metis length_Suc_conv_rev)
  have i: "(a # bs @ rest) ! Suc k = b"
    using len by (simp add: bs nth_append)
  have upd: "((a # bs @ rest)[Suc k := a])[0 := b] = b # bs' @ a # rest"
    using len by (simp add: bs list_update_append)
  have "fst (shuffle_loop (Suc k) (a # bs @ rest) rand_zero)
        = fst (shuffle_loop k (b # bs' @ a # rest) rand_zero)"
    using i upd by (simp add: rand_rand_zero Let_def)
  also have "\<dots> = bs' @ b # a # rest"
    using Suc.IH [OF len, of b "a # rest"] by simp
  finally show ?case by (simp add: bs)
qed

lemma one_pack_cards:
  "one_pack =
     [Card Club Two, Card Club Three, Card Club Four, Card Club Five, Card Club Six,
      Card Club Seven, Card Club Eight, Card Club Nine, Card Club Ten, Card Club Jack,
      Card Club Queen, Card Club King, Card Club Ace,
      Card Spade Two, Card Spade Three, Card Spade Four, Card Spade Five, Card Spade Six,
      Card Spade Seven, Card Spade Eight, Card Spade Nine, Card Spade Ten, Card Spade Jack,
      Card Spade Queen, Card Spade King, Card Spade Ace,
      Card Heart Two, Card Heart Three, Card Heart Four, Card Heart Five, Card Heart Six,
      Card Heart Seven, Card Heart Eight, Card Heart Nine, Card Heart Ten, Card Heart Jack,
      Card Heart Queen, Card Heart King, Card Heart Ace,
      Card Diamond Two, Card Diamond Three, Card Diamond Four, Card Diamond Five,
      Card Diamond Six, Card Diamond Seven, Card Diamond Eight, Card Diamond Nine,
      Card Diamond Ten, Card Diamond Jack, Card Diamond Queen, Card Diamond King,
      Card Diamond Ace]"
  by code_simp


lemma shuffled_pack:
  "shuffleDeck (initializeDeck 1) rand_zero
   = (Deck (tl one_pack @ [hd one_pack]) (Card Club Two), rand_zero)"
proof -
  have i: "initializeDeck 1 = Deck one_pack (Card Club Two)"
    by (simp add: initializeDeck_cards emptyDeck_def)
  have l: "length (tl one_pack) = 51" by (simp add: length_one_pack)
  have o: "one_pack = hd one_pack # tl one_pack @ []"
    by (simp add: one_pack_cards)
  have "fst (shuffle_loop 51 (hd one_pack # tl one_pack @ []) rand_zero)
        = tl one_pack @ hd one_pack # []"
    using shuffle_loop_rotate [OF l] .
  then have f: "fst (shuffle_loop 51 one_pack rand_zero)
                  = tl one_pack @ [hd one_pack]"
    by (simp only: o [symmetric])
  show ?thesis
    by (simp add: shuffleDeck_def i case_prod_unfold length_one_pack f shuffle_loop_rand_zero)
qed

lemma dealt:
  "deal 8 (Deck (tl one_pack @ [hd one_pack]) (Card Club Two)) emptyDeck emptyDeck
   = Inr (hiddenDeck game_start,
          Deck [Card Club Two, Card Diamond King, Card Diamond Jack, Card Diamond Nine,
                Card Diamond Seven, Card Diamond Five, Card Diamond Three, Card Heart Ace]
            (Card Club Two),
          Deck [Card Diamond Ace, Card Diamond Queen, Card Diamond Ten, Card Diamond Eight,
                Card Diamond Six, Card Diamond Four, Card Diamond Two, Card Heart King]
            (Card Club Two))"
  by (simp add: one_pack_cards eval_nat_numeral drawCard_nonempty addCardToDeck_def
        emptyDeck_def game_start_def)

lemma sorted_hands:
  "customSort (Deck [Card Club Two, Card Diamond King, Card Diamond Jack, Card Diamond Nine,
                Card Diamond Seven, Card Diamond Five, Card Diamond Three, Card Heart Ace]
            (Card Club Two)) = player1 game_start"
  "customSort (Deck [Card Diamond Ace, Card Diamond Queen, Card Diamond Ten, Card Diamond Eight,
                Card Diamond Six, Card Diamond Four, Card Diamond Two, Card Heart King]
            (Card Club Two)) = player2 game_start"
  by code_simp+

lemma game_start_init: "initGame 1 rand_zero = Inr game_start"
  by (simp add: initGame_def shuffled_pack dealt sorted_hands)
    (simp add: game_start_def emptyDeck_def)


lemma game_turn1_step: "gameStep game_start = Inr game_turn1"
proof -
  have r: "referenceCard (hiddenDeck game_start) (playedDeck game_start)
           = Inr (Card Heart Queen, hiddenDeck game_turn1)"
    by code_simp
  have p: "playOrDraw (hiddenDeck game_turn1) (player1 game_start) (playedDeck game_start)
             (Card Heart Queen)
           = Inr (hiddenDeck game_turn1, player1 game_turn1, playedDeck game_turn1)"
    by code_simp
  have ne: "cards (hiddenDeck game_turn1) \<noteq> []" by (simp add: game_turn1_def)
  have t: "takeTurn (hiddenDeck game_start) (player1 game_start) (playedDeck game_start)
             PlayerOne rand_zero
           = Inr (hiddenDeck game_turn1, player1 game_turn1, playedDeck game_turn1, rand_zero)"
    by (simp add: takeTurn_def r p reshuffle_keep [OF ne])
  have c: "currentPlayer game_start = PlayerOne" "randSrc game_start = rand_zero"
    by (simp_all add: game_start_def)
  have u: "game_start\<lparr>hiddenDeck := hiddenDeck game_turn1, player1 := player1 game_turn1,
             playedDeck := playedDeck game_turn1, currentPlayer := PlayerTwo,
             randSrc := rand_zero\<rparr> = game_turn1"
    by (simp add: game_start_def game_turn1_def)
  show ?thesis by (simp add: gameStep_def c t u)
qed

lemma game_turn2_step: "gameStep game_turn1 = Inr game_turn2"
proof -
  have r: "referenceCard (hiddenDeck game_turn1) (playedDeck game_turn1)
           = Inr (Card Heart Ace, hiddenDeck game_turn2)"
    by code_simp
  have p: "playOrDraw (hiddenDeck game_turn2) (player2 game_turn1) (playedDeck game_turn1)
             (Card Heart Ace)
           = Inr (hiddenDeck game_turn2, player2 game_turn2, playedDeck game_turn2)"
    by code_simp
  have ne: "cards (hiddenDeck game_turn2) \<noteq> []" by (simp add: game_turn2_def)
  have t: "takeTurn (hiddenDeck game_turn1) (player2 game_turn1) (playedDeck game_turn1)
             PlayerTwo rand_zero
           = Inr (hiddenDeck game_turn2, player2 game_turn2, playedDeck game_turn2, rand_zero)"
    by (simp add: takeTurn_def r p reshuffle_keep [OF ne])
  have c: "currentPlayer game_turn1 = PlayerTwo" "randSrc game_turn1 = rand_zero"
    by (simp_all add: game_turn1_def)
  have u: "game_turn1\<lparr>hiddenDeck := hiddenDeck game_turn2, player2 := player2 game_turn2,
             playedDeck := playedDeck game_turn2, currentPlayer := PlayerOne,
             randSrc := rand_zero\<rparr> = game_turn2"
    by (simp add: game_turn1_def game_turn2_def)
  show ?thesis by (simp add: gameStep_def c t u)
qed

lemma game_turn1_reachable: "reachable game_turn1"
proof -
  have s: "reachable game_start"
    by (rule reachable.start [OF _ _ game_start_init]) simp_all
  have nf: "\<not> isGameFinished (player1 game_start) (player2 game_start)"
    by (simp add: isGameFinished_def game_start_def)
  show ?thesis by (rule reachable.turn [OF s nf game_turn1_step])
qed

lemma gameStep_takeTurn:
  assumes "gameStep s = Inr s'"
  shows "\<exists>h p d g'. takeTurn (hiddenDeck s)
                       (if currentPlayer s = PlayerOne then player1 s else player2 s)
                       (playedDeck s) (currentPlayer s) (randSrc s) = Inr (h, p, d, g')
                   \<and> playedDeck s' = d"
  using assms by (auto simp: gameStep_def split: sum.splits if_splits)

lemma takeTurn_played_steps:
  assumes "takeTurn h p d cur g = Inr (h', p', d', g')"
  shows "\<exists>topc h1 h2 d2.
           referenceCard h d = Inr (topc, h1)
         \<and> playOrDraw h1 p d topc = Inr (h2, p', d2)
         \<and> (d2 = d \<or> (\<exists>c. d2 = d\<lparr>cards := cards d @ [c], topCard := c\<rparr>))
         \<and> (cards h2 \<noteq> [] \<longrightarrow> d' = d2)
         \<and> (cards h2 = [] \<longrightarrow> d' = d2\<lparr>cards := [], topCard := (topCard d2)\<lparr>rank := Two\<rparr>\<rparr>)"
proof -
  from takeTurn_parts [OF assms] obtain topc h1 h2 d2 where
    r: "referenceCard h d = Inr (topc, h1)"
    and pd: "playOrDraw h1 p d topc = Inr (h2, p', d2)"
    and rs: "reshuffle h2 d2 g = (h', d', g')"
    by blast
  from playOrDraw_cases [OF pd]
  have a: "d2 = d \<or> (\<exists>c. d2 = d\<lparr>cards := cards d @ [c], topCard := c\<rparr>)" by blast
  have b: "cards h2 \<noteq> [] \<longrightarrow> d' = d2"
  proof
    assume "cards h2 \<noteq> []"
    from reshuffle_keep [OF this, of d2 g] rs show "d' = d2" by simp
  qed
  have c: "cards h2 = [] \<longrightarrow> d' = d2\<lparr>cards := [], topCard := (topCard d2)\<lparr>rank := Two\<rparr>\<rparr>"
  proof
    assume "cards h2 = []"
    from reshuffle_empty [OF this, of d2 g] rs
    show "d' = d2\<lparr>cards := [], topCard := (topCard d2)\<lparr>rank := Two\<rparr>\<rparr>" by simp
  qed
  from r pd a b c show ?thesis by (intro exI conjI)
qed

lemma takeTurn_cache:
  assumes "takeTurn h p d cur g = Inr (h', p', d', g')"
    and "cards d \<noteq> [] \<longrightarrow> topCard d = last (cards d)"
  shows "cards d' \<noteq> [] \<longrightarrow> topCard d' = last (cards d')"
proof -
  from takeTurn_played_steps [OF assms(1)] obtain topc h1 h2 d2 where
    "referenceCard h d = Inr (topc, h1)"
    and "playOrDraw h1 p d topc = Inr (h2, p', d2)"
    and a: "d2 = d \<or> (\<exists>c. d2 = d\<lparr>cards := cards d @ [c], topCard := c\<rparr>)"
    and b: "cards h2 \<noteq> [] \<longrightarrow> d' = d2"
    and c: "cards h2 = [] \<longrightarrow> d' = d2\<lparr>cards := [], topCard := (topCard d2)\<lparr>rank := Two\<rparr>\<rparr>"
    by (elim exE conjE)
  from a have d2: "cards d2 \<noteq> [] \<longrightarrow> topCard d2 = last (cards d2)"
  proof
    assume "d2 = d"
    with assms(2) show ?thesis by simp
  next
    assume "\<exists>c. d2 = d\<lparr>cards := cards d @ [c], topCard := c\<rparr>"
    then obtain c where "d2 = d\<lparr>cards := cards d @ [c], topCard := c\<rparr>" ..
    then show ?thesis by simp
  qed
  show ?thesis
  proof (cases "cards h2 = []")
    case True
    with c show ?thesis by simp
  next
    case False
    with b d2 show ?thesis by simp
  qed
qed

lemma initGame_playedDeck: "initGame numPacks g = Inr s \<Longrightarrow> playedDeck s = emptyDeck"
  by (auto simp: initGame_def split: prod.splits sum.splits)

lemma reachable_cache:
  "reachable s \<Longrightarrow> cards (playedDeck s) \<noteq> [] \<longrightarrow> topCard (playedDeck s) = last (cards (playedDeck s))"
proof (induction rule: reachable.induct)
  case (start numPacks g s)
  then show ?case using initGame_playedDeck [of numPacks g s] by (simp add: emptyDeck_def)
next
  case (turn s s')
  from gameStep_takeTurn [OF turn.hyps(3)] obtain h p d g' where
    t: "takeTurn (hiddenDeck s) (if currentPlayer s = PlayerOne then player1 s else player2 s)
          (playedDeck s) (currentPlayer s) (randSrc s) = Inr (h, p, d, g')"
    and d: "playedDeck s' = d"
    by blast
  from takeTurn_cache [OF t turn.IH] d show ?case by simp
qed

section \<open>The claims\<close>

text \<open>
  C7: whatever the random source returns, \<open>shuffleDeck\<close> permutes the deck: the cards
  after the shuffle are the cards before it with the same multiplicities, and the size
  is the same.
\<close>

theorem shuffleDeck_permutation:
  "mset (cards (fst (shuffleDeck deck g))) = mset (cards deck)
   \<and> length (cards (fst (shuffleDeck deck g))) = length (cards deck)"
proof -
  have k: "length (cards deck) - 1 < length (cards deck) \<or> length (cards deck) - 1 = 0"
    by (cases "cards deck") auto
  have m: "mset (cards (fst (shuffleDeck deck g))) = mset (cards deck)"
    using shuffle_loop_mset [OF k, of g]
    by (simp add: shuffleDeck_def case_prod_unfold)
  from m mset_eq_length [OF m] show ?thesis by simp
qed

lemma take_nth_last:
  assumes "xs \<noteq> []"
  shows "take (length xs - 1) xs = butlast xs" and "xs ! (length xs - 1) = last xs"
  using assms by (simp_all add: butlast_conv_take last_conv_nth)

text \<open>
  C9: on a deck that is not empty \<open>drawCard\<close> succeeds, returns the last card and
  leaves the cards before it, one fewer; adding the drawn card back gives a deck of the
  original size with the original multiset of cards.
\<close>

theorem drawCard_addCard_roundtrip:
  assumes "cards deck \<noteq> []"
  shows "\<exists>c deck'. drawCard deck = Inr (c, deck')
           \<and> c = last (cards deck)
           \<and> cards deck' = butlast (cards deck)
           \<and> length (cards deck') + 1 = length (cards deck)
           \<and> length (cards (addCardToDeck deck' c)) = length (cards deck)
           \<and> mset (cards (addCardToDeck deck' c)) = mset (cards deck)"
proof -
  let ?c = "last (cards deck)" and ?d = "deck\<lparr>cards := butlast (cards deck)\<rparr>"
  have d: "drawCard deck = Inr (?c, ?d)"
    using assms take_nth_last [OF assms] by (simp add: drawCard_def)
  have restored: "cards (addCardToDeck ?d ?c) = cards deck"
    using assms by (simp add: addCardToDeck_def)
  have len: "length (cards ?d) + 1 = length (cards deck)"
    using assms by simp
  show ?thesis using d restored len by simp
qed

theorem drawCard_addCard_roundtrip_witness:
  "cards \<lparr>cards = [\<lparr>suit = Heart, rank = Five\<rparr>, \<lparr>suit = Club, rank = Nine\<rparr>],
          topCard = \<lparr>suit = Club, rank = Two\<rparr>\<rparr> \<noteq> []
   \<and> (\<exists>c deck'.
        drawCard \<lparr>cards = [\<lparr>suit = Heart, rank = Five\<rparr>, \<lparr>suit = Club, rank = Nine\<rparr>],
                  topCard = \<lparr>suit = Club, rank = Two\<rparr>\<rparr> = Inr (c, deck')
        \<and> c = \<lparr>suit = Club, rank = Nine\<rparr>
        \<and> cards deck' = [\<lparr>suit = Heart, rank = Five\<rparr>]
        \<and> mset (cards (addCardToDeck deck' c))
            = {#\<lparr>suit = Heart, rank = Five\<rparr>, \<lparr>suit = Club, rank = Nine\<rparr>#})"
proof -
  let ?D = "\<lparr>cards = [\<lparr>suit = Heart, rank = Five\<rparr>, \<lparr>suit = Club, rank = Nine\<rparr>],
            topCard = \<lparr>suit = Club, rank = Two\<rparr>\<rparr>"
  have h: "cards ?D \<noteq> []" by simp
  from drawCard_addCard_roundtrip [OF h] obtain c deck' where
    r: "drawCard ?D = Inr (c, deck')" "c = last (cards ?D)" "cards deck' = butlast (cards ?D)"
       "mset (cards (addCardToDeck deck' c)) = mset (cards ?D)"
    by blast
  from r(2) have c: "c = \<lparr>suit = Club, rank = Nine\<rparr>" by simp
  from r(3) have d: "cards deck' = [\<lparr>suit = Heart, rank = Five\<rparr>]" by simp
  from r(4) have m: "mset (cards (addCardToDeck deck' c))
            = {#\<lparr>suit = Heart, rank = Five\<rparr>, \<lparr>suit = Club, rank = Nine\<rparr>#}" by simp
  show ?thesis using h r(1) c d m by blast
qed

text \<open>
  C3: with the reference card settled, the first card of the hand, from the front, that
  has the rank or the suit of the reference card is played: it leaves the hand, the
  cards before and after it keep their order, it goes onto the end of the played deck
  and becomes its cached top card. When no card of the hand matches, the last card of
  the hidden deck goes onto the end of the hand and the played deck is as it was; with
  the hidden deck empty that draw is the failure. This is the state at line 217;
  \<open>takeTurn\<close> then applies the reshuffle of lines 219 to 231 to it.
\<close>

theorem playOrDraw_first_match:
  assumes "referenceCard hidden played = Inr (topc, hidden1)"
  shows "(\<forall>m. m < length (cards player) \<and> canPlayCard (cards player ! m) topc
              \<and> (\<forall>k<m. \<not> canPlayCard (cards player ! k) topc)
            \<longrightarrow> playOrDraw hidden1 player played topc
                = Inr (hidden1,
                       player\<lparr>cards := take m (cards player) @ drop (m + 1) (cards player)\<rparr>,
                       played\<lparr>cards := cards played @ [cards player ! m],
                              topCard := cards player ! m\<rparr>))
       \<and> ((\<forall>k<length (cards player). \<not> canPlayCard (cards player ! k) topc)
            \<longrightarrow> (cards hidden1 \<noteq> []
                   \<longrightarrow> playOrDraw hidden1 player played topc
                       = Inr (hidden1\<lparr>cards := butlast (cards hidden1)\<rparr>,
                              player\<lparr>cards := cards player @ [last (cards hidden1)]\<rparr>,
                              played))
               \<and> (cards hidden1 = []
                   \<longrightarrow> playOrDraw hidden1 player played topc = Inl EmptyDeckRead))
       \<and> takeTurn hidden player played cur g
           = (case playOrDraw hidden1 player played topc of
                Inl e \<Rightarrow> Inl e
              | Inr (hidden2, hand2, played2) \<Rightarrow>
                  (case reshuffle hidden2 played2 g of
                     (hidden3, played3, g') \<Rightarrow> Inr (hidden3, hand2, played3, g')))"
proof (intro conjI allI impI)
  fix m
  assume "m < length (cards player) \<and> canPlayCard (cards player ! m) topc
              \<and> (\<forall>k<m. \<not> canPlayCard (cards player ! k) topc)"
  then show "playOrDraw hidden1 player played topc
                = Inr (hidden1,
                       player\<lparr>cards := take m (cards player) @ drop (m + 1) (cards player)\<rparr>,
                       played\<lparr>cards := cards played @ [cards player ! m],
                              topCard := cards player ! m\<rparr>)"
    using playOrDraw_match by blast
next
  assume "\<forall>k<length (cards player). \<not> canPlayCard (cards player ! k) topc"
    and "cards hidden1 \<noteq> []"
  then show "playOrDraw hidden1 player played topc
                       = Inr (hidden1\<lparr>cards := butlast (cards hidden1)\<rparr>,
                              player\<lparr>cards := cards player @ [last (cards hidden1)]\<rparr>,
                              played)"
    by (simp add: playOrDraw_nomatch drawCard_nonempty addCardToDeck_def)
next
  assume "\<forall>k<length (cards player). \<not> canPlayCard (cards player ! k) topc"
    and "cards hidden1 = []"
  then show "playOrDraw hidden1 player played topc = Inl EmptyDeckRead"
    by (simp add: playOrDraw_nomatch drawCard_empty)
next
  show "takeTurn hidden player played cur g
           = (case playOrDraw hidden1 player played topc of
                Inl e \<Rightarrow> Inl e
              | Inr (hidden2, hand2, played2) \<Rightarrow>
                  (case reshuffle hidden2 played2 g of
                     (hidden3, played3, g') \<Rightarrow> Inr (hidden3, hand2, played3, g')))"
    using assms by (simp add: takeTurn_def)
qed



theorem playOrDraw_first_match_witness:
  "referenceCard (Deck [Card Club Nine] (Card Club Two)) (Deck [Card Heart Five] (Card Heart Five))
     = Inr (Card Heart Five, Deck [Card Club Nine] (Card Club Two))
   \<and> canPlayCard ([Card Club Two, Card Spade Five] ! 1) (Card Heart Five)
   \<and> \<not> canPlayCard ([Card Club Two, Card Spade Five] ! 0) (Card Heart Five)
   \<and> playOrDraw (Deck [Card Club Nine] (Card Club Two))
        (Deck [Card Club Two, Card Spade Five] (Card Club Two))
        (Deck [Card Heart Five] (Card Heart Five)) (Card Heart Five)
       = Inr (Deck [Card Club Nine] (Card Club Two),
              Deck [Card Club Two] (Card Club Two),
              Deck [Card Heart Five, Card Spade Five] (Card Spade Five))
   \<and> referenceCard (Deck [Card Heart Seven, Card Club Nine] (Card Club Two))
        (Deck [Card Diamond Three] (Card Diamond Three))
     = Inr (Card Diamond Three, Deck [Card Heart Seven, Card Club Nine] (Card Club Two))
   \<and> \<not> canPlayCard ([Card Club Two, Card Spade Five] ! 0) (Card Diamond Three)
   \<and> \<not> canPlayCard ([Card Club Two, Card Spade Five] ! 1) (Card Diamond Three)
   \<and> playOrDraw (Deck [Card Heart Seven, Card Club Nine] (Card Club Two))
        (Deck [Card Club Two, Card Spade Five] (Card Club Two))
        (Deck [Card Diamond Three] (Card Diamond Three)) (Card Diamond Three)
       = Inr (Deck [Card Heart Seven] (Card Club Two),
              Deck [Card Club Two, Card Spade Five, Card Club Nine] (Card Club Two),
              Deck [Card Diamond Three] (Card Diamond Three))
   \<and> referenceCard (Deck [] (Card Club Two)) (Deck [Card Diamond Three] (Card Diamond Three))
     = Inr (Card Diamond Three, Deck [] (Card Club Two))
   \<and> playOrDraw (Deck [] (Card Club Two))
        (Deck [Card Club Two, Card Spade Five] (Card Club Two))
        (Deck [Card Diamond Three] (Card Diamond Three)) (Card Diamond Three)
       = Inl EmptyDeckRead"
proof -
  let ?hand = "Deck [Card Club Two, Card Spade Five] (Card Club Two)"
  have r1: "referenceCard (Deck [Card Club Nine] (Card Club Two))
              (Deck [Card Heart Five] (Card Heart Five))
            = Inr (Card Heart Five, Deck [Card Club Nine] (Card Club Two))"
    by (simp add: referenceCard_def)
  have m1: "1 < length (cards ?hand) \<and> canPlayCard (cards ?hand ! 1) (Card Heart Five)
            \<and> (\<forall>k<1. \<not> canPlayCard (cards ?hand ! k) (Card Heart Five))"
    by (simp add: canPlayCard_def)
  have r2: "referenceCard (Deck [Card Heart Seven, Card Club Nine] (Card Club Two))
              (Deck [Card Diamond Three] (Card Diamond Three))
            = Inr (Card Diamond Three, Deck [Card Heart Seven, Card Club Nine] (Card Club Two))"
    by (simp add: referenceCard_def)
  have r3: "referenceCard (Deck [] (Card Club Two)) (Deck [Card Diamond Three] (Card Diamond Three))
            = Inr (Card Diamond Three, Deck [] (Card Club Two))"
    by (simp add: referenceCard_def)
  have n2: "\<forall>k<length (cards ?hand). \<not> canPlayCard (cards ?hand ! k) (Card Diamond Three)"
    by (simp add: canPlayCard_def less_Suc_eq)
  from playOrDraw_first_match [OF r1, of ?hand PlayerOne rand_zero] m1
  have "playOrDraw (Deck [Card Club Nine] (Card Club Two)) ?hand
              (Deck [Card Heart Five] (Card Heart Five)) (Card Heart Five)
            = Inr (Deck [Card Club Nine] (Card Club Two),
                   ?hand\<lparr>cards := take 1 (cards ?hand) @ drop (1 + 1) (cards ?hand)\<rparr>,
                   (Deck [Card Heart Five] (Card Heart Five))
                     \<lparr>cards := cards (Deck [Card Heart Five] (Card Heart Five)) @ [cards ?hand ! 1],
                      topCard := cards ?hand ! 1\<rparr>)"
    by blast
  then have p1: "playOrDraw (Deck [Card Club Nine] (Card Club Two)) ?hand
              (Deck [Card Heart Five] (Card Heart Five)) (Card Heart Five)
            = Inr (Deck [Card Club Nine] (Card Club Two),
                   Deck [Card Club Two] (Card Club Two),
                   Deck [Card Heart Five, Card Spade Five] (Card Spade Five))"
    by simp
  from playOrDraw_first_match [OF r2, of ?hand PlayerOne rand_zero] n2
  have p2: "playOrDraw (Deck [Card Heart Seven, Card Club Nine] (Card Club Two)) ?hand
              (Deck [Card Diamond Three] (Card Diamond Three)) (Card Diamond Three)
            = Inr (Deck [Card Heart Seven] (Card Club Two),
                   Deck [Card Club Two, Card Spade Five, Card Club Nine] (Card Club Two),
                   Deck [Card Diamond Three] (Card Diamond Three))"
    by simp
  from playOrDraw_first_match [OF r3, of ?hand PlayerOne rand_zero] n2
  have p3: "playOrDraw (Deck [] (Card Club Two)) ?hand
              (Deck [Card Diamond Three] (Card Diamond Three)) (Card Diamond Three)
            = Inl EmptyDeckRead"
    by simp
  have "canPlayCard ([Card Club Two, Card Spade Five] ! 1) (Card Heart Five)"
    and "\<not> canPlayCard ([Card Club Two, Card Spade Five] ! 0) (Card Heart Five)"
    and "\<not> canPlayCard ([Card Club Two, Card Spade Five] ! 0) (Card Diamond Three)"
    and "\<not> canPlayCard ([Card Club Two, Card Spade Five] ! 1) (Card Diamond Three)"
    by (simp_all add: canPlayCard_def)
  with r1 r2 r3 p1 p2 p3 show ?thesis by blast
qed

text \<open>
  C1: a run of \<open>takeTurn\<close> in which the last card played is the Two of Hearts. The test
  for the empty top card is on the rank value alone, and Two has value zero: a card is
  drawn from the hidden deck and the hand is matched against that card, not against the
  Two of Hearts, so the Two of Spades in the hand is not played.
\<close>

theorem takeTurn_rank_Two_top_draws:
  "referenceCard (Deck [Card Club Nine, Card Club Five, Card Diamond King] (Card Club Two))
     (Deck [Card Heart Two] (Card Heart Two))
   = Inr (Card Diamond King, Deck [Card Club Nine, Card Club Five] (Card Club Two))
   \<and> takeTurn (Deck [Card Club Nine, Card Club Five, Card Diamond King] (Card Club Two))
       (Deck [Card Spade Two] (Card Club Two))
       (Deck [Card Heart Two] (Card Heart Two)) PlayerOne rand_zero
     = Inr (Deck [Card Club Nine] (Card Club Two),
            Deck [Card Spade Two, Card Club Five] (Card Club Two),
            Deck [Card Heart Two] (Card Heart Two), rand_zero)"
  by (simp add: turn_eval)

text \<open>
  C2, as stated, fails on the first turn of a game: the played deck is empty, the
  reference card is drawn and kept in no deck, and three cards become two.
\<close>

theorem takeTurn_conservation_counterexample:
  "takeTurn (Deck [Card Club Nine, Card Heart Five] (Card Club Two))
     (Deck [Card Spade Five] (Card Club Two)) emptyDeck PlayerOne rand_zero
   = Inr (Deck [Card Club Nine] (Card Club Two), Deck [] (Card Club Two),
          Deck [Card Spade Five] (Card Spade Five), rand_zero)
   \<and> length (cards (Deck [Card Club Nine] (Card Club Two)))
       + length (cards (Deck [] (Card Club Two)))
       + length (cards (Deck [Card Spade Five] (Card Spade Five)))
     \<noteq> length (cards (Deck [Card Club Nine, Card Heart Five] (Card Club Two)))
       + length (cards (Deck [Card Spade Five] (Card Club Two)))
       + length (cards emptyDeck)"
proof -
  have pd2: "playOrDraw (Deck [Card Club Nine] (Card Club Two))
               (Deck [Card Spade Five] (Card Club Two)) emptyDeck (Card Heart Five)
             = Inr (Deck [Card Club Nine] (Card Club Two), Deck [] (Card Club Two),
                    Deck [Card Spade Five] (Card Spade Five))"
    using playOrDraw_match [of 0 "Deck [Card Spade Five] (Card Club Two)" "Card Heart Five"
            "Deck [Card Club Nine] (Card Club Two)" emptyDeck]
    by (simp add: canPlayCard_def emptyDeck_def)
  show ?thesis
    by (simp add: takeTurn_def referenceCard_def drawCard_def pd2 [unfolded emptyDeck_def]
          reshuffle_def emptyDeck_def)
qed

text \<open>
  C2, as amended: for a call of \<open>takeTurn\<close> that returns, the number of cards in the
  hidden deck, the hand and the played deck together is unchanged when the cached top
  card of the played deck does not have rank value zero; when the played deck is empty
  and its cached top card is the empty one, the reference card drawn from the hidden deck
  is stored nowhere and the number is one less.
\<close>

theorem takeTurn_card_count:
  assumes "takeTurn h p d cur g = Inr (h', p', d', g')"
  shows "(rank_val (rank (topCard d)) \<noteq> 0
            \<longrightarrow> length (cards h') + length (cards p') + length (cards d')
                = length (cards h) + length (cards p) + length (cards d))
       \<and> (rank_val (rank (topCard d)) = 0 \<and> cards d = []
            \<longrightarrow> length (cards h') + length (cards p') + length (cards d') + 1
                = length (cards h) + length (cards p) + length (cards d))"
proof -
  from takeTurn_parts [OF assms] obtain topc h1 h2 d2 where
    r: "referenceCard h d = Inr (topc, h1)"
    and pd: "playOrDraw h1 p d topc = Inr (h2, p', d2)"
    and rs: "reshuffle h2 d2 g = (h', d', g')"
    by blast
  have c1: "length (cards h2) + length (cards p') + length (cards d2)
            = length (cards h1) + length (cards p) + length (cards d)"
    using playOrDraw_count [OF pd] .
  have c2: "length (cards h') + length (cards d') = length (cards h2) + length (cards d2)"
    using reshuffle_count [OF rs] .
  from referenceCard_cases [OF r] show ?thesis
  proof
    assume "rank_val (rank (topCard d)) \<noteq> 0 \<and> topc = topCard d \<and> h1 = h"
    with c1 c2 show ?thesis by simp
  next
    assume a: "rank_val (rank (topCard d)) = 0 \<and> cards h \<noteq> [] \<and> topc = last (cards h)
           \<and> h1 = h\<lparr>cards := butlast (cards h)\<rparr>"
    then have "length (cards h1) + 1 = length (cards h)"
      and "rank_val (rank (topCard d)) = 0" by simp_all
    with c1 c2 show ?thesis by linarith
  qed
qed


theorem takeTurn_card_count_witness:
  "takeTurn (Deck [Card Club Nine] (Card Club Two)) (Deck [Card Spade Five] (Card Club Two))
     (Deck [Card Heart Five] (Card Heart Five)) PlayerOne rand_zero
   = Inr (Deck [Card Club Nine] (Card Club Two), Deck [] (Card Club Two),
          Deck [Card Heart Five, Card Spade Five] (Card Spade Five), rand_zero)
   \<and> rank_val (rank (Card Heart Five)) \<noteq> 0
   \<and> length [Card Club Nine] + length ([] :: PlayingCard list)
        + length [Card Heart Five, Card Spade Five]
      = length [Card Club Nine] + length [Card Spade Five] + length [Card Heart Five]
   \<and> takeTurn (Deck [Card Club Nine, Card Heart Five] (Card Club Two))
        (Deck [Card Spade Five] (Card Club Two)) emptyDeck PlayerOne rand_zero
      = Inr (Deck [Card Club Nine] (Card Club Two), Deck [] (Card Club Two),
             Deck [Card Spade Five] (Card Spade Five), rand_zero)
   \<and> rank_val (rank (topCard emptyDeck)) = 0 \<and> cards emptyDeck = []
   \<and> length [Card Club Nine] + length ([] :: PlayingCard list) + length [Card Spade Five] + 1
      = length [Card Club Nine, Card Heart Five] + length [Card Spade Five]
          + length ([] :: PlayingCard list)"
proof -
  have pd1: "playOrDraw (Deck [Card Club Nine] (Card Club Two))
               (Deck [Card Spade Five] (Card Club Two))
               (Deck [Card Heart Five] (Card Heart Five)) (Card Heart Five)
             = Inr (Deck [Card Club Nine] (Card Club Two), Deck [] (Card Club Two),
                    Deck [Card Heart Five, Card Spade Five] (Card Spade Five))"
    using playOrDraw_match [of 0 "Deck [Card Spade Five] (Card Club Two)" "Card Heart Five"
            "Deck [Card Club Nine] (Card Club Two)" "Deck [Card Heart Five] (Card Heart Five)"]
    by (simp add: canPlayCard_def)
  have t1: "takeTurn (Deck [Card Club Nine] (Card Club Two))
              (Deck [Card Spade Five] (Card Club Two))
              (Deck [Card Heart Five] (Card Heart Five)) PlayerOne rand_zero
            = Inr (Deck [Card Club Nine] (Card Club Two), Deck [] (Card Club Two),
                   Deck [Card Heart Five, Card Spade Five] (Card Spade Five), rand_zero)"
    by (simp add: takeTurn_def referenceCard_def pd1 reshuffle_def)
  have pd2: "playOrDraw (Deck [Card Club Nine] (Card Club Two))
               (Deck [Card Spade Five] (Card Club Two)) emptyDeck (Card Heart Five)
             = Inr (Deck [Card Club Nine] (Card Club Two), Deck [] (Card Club Two),
                    Deck [Card Spade Five] (Card Spade Five))"
    using playOrDraw_match [of 0 "Deck [Card Spade Five] (Card Club Two)" "Card Heart Five"
            "Deck [Card Club Nine] (Card Club Two)" emptyDeck]
    by (simp add: canPlayCard_def emptyDeck_def)
  have t2: "takeTurn (Deck [Card Club Nine, Card Heart Five] (Card Club Two))
              (Deck [Card Spade Five] (Card Club Two)) emptyDeck PlayerOne rand_zero
            = Inr (Deck [Card Club Nine] (Card Club Two), Deck [] (Card Club Two),
                   Deck [Card Spade Five] (Card Spade Five), rand_zero)"
    by (simp add: takeTurn_def referenceCard_def drawCard_def pd2 [unfolded emptyDeck_def]
          reshuffle_def emptyDeck_def)
  have z: "rank_val (rank (topCard emptyDeck)) = 0 \<and> cards emptyDeck = []"
    by (simp add: emptyDeck_def)
  from takeTurn_card_count [OF t1] takeTurn_card_count [OF t2] z t1 t2
  show ?thesis by (simp add: emptyDeck_def)
qed

text \<open>
  C10: a call of \<open>takeTurn\<close> that returns changes the size of the hand by exactly one.
  With a card in the hand that can be played on the reference card the hand is one
  smaller, with none it is one larger; so a hand that is empty after the call had a card
  that was played.
\<close>

theorem takeTurn_hand_size:
  assumes "takeTurn h p d cur g = Inr (h', p', d', g')"
  shows "\<exists>topc h1. referenceCard h d = Inr (topc, h1)
           \<and> ((\<exists>c\<in>set (cards p). canPlayCard c topc)
                 \<longrightarrow> length (cards p') + 1 = length (cards p))
           \<and> ((\<forall>c\<in>set (cards p). \<not> canPlayCard c topc)
                 \<longrightarrow> length (cards p') = length (cards p) + 1)
           \<and> (cards p' = [] \<longrightarrow> (\<exists>c\<in>set (cards p). canPlayCard c topc))"
proof -
  from takeTurn_parts [OF assms] obtain topc h1 h2 d2 where
    r: "referenceCard h d = Inr (topc, h1)"
    and pd: "playOrDraw h1 p d topc = Inr (h2, p', d2)"
    by blast
  from playOrDraw_cases [OF pd]
  have "((\<exists>c\<in>set (cards p). canPlayCard c topc)
                 \<longrightarrow> length (cards p') + 1 = length (cards p))
           \<and> ((\<forall>c\<in>set (cards p). \<not> canPlayCard c topc)
                 \<longrightarrow> length (cards p') = length (cards p) + 1)
           \<and> (cards p' = [] \<longrightarrow> (\<exists>c\<in>set (cards p). canPlayCard c topc))"
  proof (elim disjE exE conjE)
    fix m
    assume m: "m < length (cards p)" "canPlayCard (cards p ! m) topc"
      and p': "p' = p\<lparr>cards := take m (cards p) @ drop (m + 1) (cards p)\<rparr>"
    from m have ex: "\<exists>c\<in>set (cards p). canPlayCard c topc"
      using nth_mem by blast
    from m(1) p' have "length (cards p') + 1 = length (cards p)" by simp
    with ex show ?thesis by simp
  next
    assume nm: "\<forall>k<length (cards p). \<not> canPlayCard (cards p ! k) topc"
      and p': "p' = p\<lparr>cards := cards p @ [last (cards h1)]\<rparr>"
    from nm have "\<forall>c\<in>set (cards p). \<not> canPlayCard c topc"
      by (metis in_set_conv_nth)
    with p' show ?thesis by simp
  qed
  with r show ?thesis by blast
qed


theorem takeTurn_hand_size_witness:
  "takeTurn (Deck [Card Club Nine] (Card Club Two)) (Deck [Card Spade Five] (Card Club Two))
     (Deck [Card Heart Five] (Card Heart Five)) PlayerOne rand_zero
   = Inr (Deck [Card Club Nine] (Card Club Two), Deck [] (Card Club Two),
          Deck [Card Heart Five, Card Spade Five] (Card Spade Five), rand_zero)
   \<and> (\<exists>c\<in>set [Card Spade Five]. canPlayCard c (Card Heart Five))
   \<and> length ([] :: PlayingCard list) + 1 = length [Card Spade Five]
   \<and> takeTurn (Deck [Card Heart Seven, Card Club Nine] (Card Club Two))
        (Deck [Card Club Two, Card Spade Five] (Card Club Two))
        (Deck [Card Diamond Three] (Card Diamond Three)) PlayerTwo rand_zero
      = Inr (Deck [Card Heart Seven] (Card Club Two),
             Deck [Card Club Two, Card Spade Five, Card Club Nine] (Card Club Two),
             Deck [Card Diamond Three] (Card Diamond Three), rand_zero)
   \<and> \<not> canPlayCard (Card Club Two) (Card Diamond Three)
   \<and> \<not> canPlayCard (Card Spade Five) (Card Diamond Three)
   \<and> length [Card Club Two, Card Spade Five, Card Club Nine]
       = length [Card Club Two, Card Spade Five] + 1"
proof -
  have pd1: "playOrDraw (Deck [Card Club Nine] (Card Club Two))
               (Deck [Card Spade Five] (Card Club Two))
               (Deck [Card Heart Five] (Card Heart Five)) (Card Heart Five)
             = Inr (Deck [Card Club Nine] (Card Club Two), Deck [] (Card Club Two),
                    Deck [Card Heart Five, Card Spade Five] (Card Spade Five))"
    using playOrDraw_match [of 0 "Deck [Card Spade Five] (Card Club Two)" "Card Heart Five"
            "Deck [Card Club Nine] (Card Club Two)" "Deck [Card Heart Five] (Card Heart Five)"]
    by (simp add: canPlayCard_def)
  have t1: "takeTurn (Deck [Card Club Nine] (Card Club Two))
              (Deck [Card Spade Five] (Card Club Two))
              (Deck [Card Heart Five] (Card Heart Five)) PlayerOne rand_zero
            = Inr (Deck [Card Club Nine] (Card Club Two), Deck [] (Card Club Two),
                   Deck [Card Heart Five, Card Spade Five] (Card Spade Five), rand_zero)"
    by (simp add: takeTurn_def referenceCard_def pd1 reshuffle_def)
  have t2: "takeTurn (Deck [Card Heart Seven, Card Club Nine] (Card Club Two))
              (Deck [Card Club Two, Card Spade Five] (Card Club Two))
              (Deck [Card Diamond Three] (Card Diamond Three)) PlayerTwo rand_zero
            = Inr (Deck [Card Heart Seven] (Card Club Two),
                   Deck [Card Club Two, Card Spade Five, Card Club Nine] (Card Club Two),
                   Deck [Card Diamond Three] (Card Diamond Three), rand_zero)"
    by (simp add: turn_eval)
  from takeTurn_hand_size [OF t1] obtain topc h1 where
    a: "referenceCard (Deck [Card Club Nine] (Card Club Two))
          (Deck [Card Heart Five] (Card Heart Five)) = Inr (topc, h1)"
       "(\<exists>c\<in>set (cards (Deck [Card Spade Five] (Card Club Two))). canPlayCard c topc)
          \<longrightarrow> length (cards (Deck [] (Card Club Two))) + 1
              = length (cards (Deck [Card Spade Five] (Card Club Two)))"
       "cards (Deck [] (Card Club Two)) = []
          \<longrightarrow> (\<exists>c\<in>set (cards (Deck [Card Spade Five] (Card Club Two))). canPlayCard c topc)"
    by blast
  from a(1) have "topc = Card Heart Five" by (simp add: referenceCard_def)
  with a(2,3) have r1: "(\<exists>c\<in>set [Card Spade Five]. canPlayCard c (Card Heart Five))
         \<and> length ([] :: PlayingCard list) + 1 = length [Card Spade Five]"
    by simp
  from takeTurn_hand_size [OF t2] obtain topc' h1' where
    b: "referenceCard (Deck [Card Heart Seven, Card Club Nine] (Card Club Two))
          (Deck [Card Diamond Three] (Card Diamond Three)) = Inr (topc', h1')"
       "(\<forall>c\<in>set (cards (Deck [Card Club Two, Card Spade Five] (Card Club Two))).
            \<not> canPlayCard c topc')
          \<longrightarrow> length (cards (Deck [Card Club Two, Card Spade Five, Card Club Nine] (Card Club Two)))
              = length (cards (Deck [Card Club Two, Card Spade Five] (Card Club Two))) + 1"
    by blast
  from b(1) have tc: "topc' = Card Diamond Three" by (simp add: referenceCard_def)
  have n: "\<forall>c\<in>set [Card Club Two, Card Spade Five]. \<not> canPlayCard c (Card Diamond Three)"
    by (simp add: canPlayCard_def)
  with b(2) tc have r2: "length [Card Club Two, Card Spade Five, Card Club Nine]
       = length [Card Club Two, Card Spade Five] + 1"
    by simp
  have n': "\<not> canPlayCard (Card Club Two) (Card Diamond Three)"
    "\<not> canPlayCard (Card Spade Five) (Card Diamond Three)"
    by (simp_all add: canPlayCard_def)
  from t1 t2 r1 n' r2 show ?thesis by blast
qed

text \<open>
  C4: when the hidden deck is empty after the play-or-draw step, \<open>takeTurn\<close> returns
  with the cards of the played deck, a card played in this turn among them, copied in
  order into the hidden deck and then shuffled there, so the hidden deck ends with as many
  cards as the played deck held and with the same cards; the played deck is empty and the
  rank of its cached top card is reset to value zero, which is the test for the empty
  top card.
\<close>

theorem takeTurn_reshuffle:
  assumes "referenceCard h d = Inr (topc, h1)"
    and "playOrDraw h1 p d topc = Inr (h2, p2, d2)"
    and "cards h2 = []"
  shows "\<exists>h3 d3 g'. takeTurn h p d cur g = Inr (h3, p2, d3, g')
           \<and> shuffleDeck (h2\<lparr>cards := cards d2\<rparr>) g = (h3, g')
           \<and> length (cards h3) = length (cards d2)
           \<and> mset (cards h3) = mset (cards d2)
           \<and> cards d3 = []
           \<and> topCard d3 = (topCard d2)\<lparr>rank := Two\<rparr>
           \<and> rank_val (rank (topCard d3)) = 0
           \<and> (\<forall>m. m < length (cards p) \<and> canPlayCard (cards p ! m) topc
                    \<and> (\<forall>k<m. \<not> canPlayCard (cards p ! k) topc)
                  \<longrightarrow> cards p ! m \<in> set (cards h3))"
proof -
  let ?sh = "shuffle_loop (length (cards d2) - 1) (cards d2) g"
  let ?h3 = "h2\<lparr>cards := fst ?sh\<rparr>"
  let ?d3 = "d2\<lparr>cards := [], topCard := (topCard d2)\<lparr>rank := Two\<rparr>\<rparr>"
  have rs: "reshuffle h2 d2 g = (?h3, ?d3, snd ?sh)"
    using reshuffle_empty [OF assms(3)] .
  have tt: "takeTurn h p d cur g = Inr (?h3, p2, ?d3, snd ?sh)"
    using assms(1,2) rs by (simp add: takeTurn_def)
  have sd: "shuffleDeck (h2\<lparr>cards := cards d2\<rparr>) g = (?h3, snd ?sh)"
    by (simp add: shuffleDeck_def case_prod_unfold)
  have k: "length (cards d2) - 1 < length (cards d2) \<or> length (cards d2) - 1 = 0"
    by (cases "cards d2") auto
  have ms: "mset (cards ?h3) = mset (cards d2)"
    using shuffle_loop_mset [OF k, of g] by simp
  have len: "length (cards ?h3) = length (cards d2)"
    using mset_eq_length [OF ms] .
  have played: "\<forall>m. m < length (cards p) \<and> canPlayCard (cards p ! m) topc
                    \<and> (\<forall>k<m. \<not> canPlayCard (cards p ! k) topc)
                  \<longrightarrow> cards p ! m \<in> set (cards ?h3)"
  proof (intro allI impI)
    fix m
    assume m: "m < length (cards p) \<and> canPlayCard (cards p ! m) topc
                    \<and> (\<forall>k<m. \<not> canPlayCard (cards p ! k) topc)"
    then have "playOrDraw h1 p d topc
         = Inr (h1, p\<lparr>cards := take m (cards p) @ drop (m + 1) (cards p)\<rparr>,
                d\<lparr>cards := cards d @ [cards p ! m], topCard := cards p ! m\<rparr>)"
      using playOrDraw_match by blast
    with assms(2) have "d2 = d\<lparr>cards := cards d @ [cards p ! m], topCard := cards p ! m\<rparr>"
      by simp
    then have "cards d2 = cards d @ [cards p ! m]" by simp
    then have "cards p ! m \<in># mset (cards d2)" by simp
    with ms have "cards p ! m \<in># mset (cards ?h3)" by simp
    then show "cards p ! m \<in> set (cards ?h3)" by simp
  qed
  have top: "rank_val (rank (topCard ?d3)) = 0" by simp
  from tt sd len ms played top show ?thesis by simp
qed


theorem takeTurn_reshuffle_witness:
  "referenceCard (Deck [Card Club Nine] (Card Club Two))
     (Deck [Card Diamond Four, Card Diamond Three] (Card Diamond Three))
     = Inr (Card Diamond Three, Deck [Card Club Nine] (Card Club Two))
   \<and> playOrDraw (Deck [Card Club Nine] (Card Club Two))
        (Deck [Card Club Two, Card Spade Five] (Card Club Two))
        (Deck [Card Diamond Four, Card Diamond Three] (Card Diamond Three)) (Card Diamond Three)
     = Inr (Deck [] (Card Club Two),
            Deck [Card Club Two, Card Spade Five, Card Club Nine] (Card Club Two),
            Deck [Card Diamond Four, Card Diamond Three] (Card Diamond Three))
   \<and> takeTurn (Deck [Card Club Nine] (Card Club Two))
        (Deck [Card Club Two, Card Spade Five] (Card Club Two))
        (Deck [Card Diamond Four, Card Diamond Three] (Card Diamond Three)) PlayerOne rand_zero
     = Inr (Deck [Card Diamond Three, Card Diamond Four] (Card Club Two),
            Deck [Card Club Two, Card Spade Five, Card Club Nine] (Card Club Two),
            Deck [] (Card Diamond Two), rand_zero)
   \<and> referenceCard (Deck [Card Heart Five] (Card Club Two)) emptyDeck
     = Inr (Card Heart Five, Deck [] (Card Club Two))
   \<and> playOrDraw (Deck [] (Card Club Two))
        (Deck [Card Club Two, Card Spade Five] (Card Club Two)) emptyDeck (Card Heart Five)
     = Inr (Deck [] (Card Club Two), Deck [Card Club Two] (Card Club Two),
            Deck [Card Spade Five] (Card Spade Five))
   \<and> canPlayCard ([Card Club Two, Card Spade Five] ! 1) (Card Heart Five)
   \<and> \<not> canPlayCard ([Card Club Two, Card Spade Five] ! 0) (Card Heart Five)
   \<and> takeTurn (Deck [Card Heart Five] (Card Club Two))
        (Deck [Card Club Two, Card Spade Five] (Card Club Two)) emptyDeck PlayerOne rand_zero
     = Inr (Deck [Card Spade Five] (Card Club Two), Deck [Card Club Two] (Card Club Two),
            Deck [] (Card Spade Two), rand_zero)
   \<and> [Card Club Two, Card Spade Five] ! 1 \<in> set [Card Spade Five]"
proof -
  let ?hand = "Deck [Card Club Two, Card Spade Five] (Card Club Two)"
  let ?dA = "Deck [Card Diamond Four, Card Diamond Three] (Card Diamond Three)"
  have rA: "referenceCard (Deck [Card Club Nine] (Card Club Two)) ?dA
            = Inr (Card Diamond Three, Deck [Card Club Nine] (Card Club Two))"
    by (simp add: referenceCard_def)
  have pA: "playOrDraw (Deck [Card Club Nine] (Card Club Two)) ?hand ?dA (Card Diamond Three)
            = Inr (Deck [] (Card Club Two),
                   Deck [Card Club Two, Card Spade Five, Card Club Nine] (Card Club Two), ?dA)"
    using playOrDraw_nomatch [of ?hand "Card Diamond Three"
            "Deck [Card Club Nine] (Card Club Two)" ?dA]
    by (simp add: canPlayCard_def less_Suc_eq drawCard_def addCardToDeck_def)
  have eA: "cards (Deck [] (Card Club Two)) = []" by simp
  from takeTurn_reshuffle [OF rA pA eA, of PlayerOne rand_zero] obtain h3 d3 g' where
    A: "takeTurn (Deck [Card Club Nine] (Card Club Two)) ?hand ?dA PlayerOne rand_zero
          = Inr (h3, Deck [Card Club Two, Card Spade Five, Card Club Nine] (Card Club Two), d3, g')"
       "shuffleDeck ((Deck [] (Card Club Two))\<lparr>cards := cards ?dA\<rparr>) rand_zero = (h3, g')"
       "cards d3 = []" "topCard d3 = (topCard ?dA)\<lparr>rank := Two\<rparr>"
    by blast
  have "shuffleDeck ((Deck [] (Card Club Two))\<lparr>cards := cards ?dA\<rparr>) rand_zero
        = (Deck [Card Diamond Three, Card Diamond Four] (Card Club Two), rand_zero)"
    by (simp add: shuffleDeck_def rand_def rand_zero_def)
  with A(2) have hA: "h3 = Deck [Card Diamond Three, Card Diamond Four] (Card Club Two)"
    and gA: "g' = rand_zero" by simp_all
  from A(3,4) have dA: "d3 = Deck [] (Card Diamond Two)" by (cases d3) simp
  note tA = A(1) [unfolded hA gA dA]
  have rB: "referenceCard (Deck [Card Heart Five] (Card Club Two)) emptyDeck
            = Inr (Card Heart Five, Deck [] (Card Club Two))"
    by (simp add: referenceCard_def emptyDeck_def drawCard_def)
  have mB: "1 < length (cards ?hand) \<and> canPlayCard (cards ?hand ! 1) (Card Heart Five)
            \<and> (\<forall>k<1. \<not> canPlayCard (cards ?hand ! k) (Card Heart Five))"
    by (simp add: canPlayCard_def)
  have pB: "playOrDraw (Deck [] (Card Club Two)) ?hand emptyDeck (Card Heart Five)
            = Inr (Deck [] (Card Club Two), Deck [Card Club Two] (Card Club Two),
                   Deck [Card Spade Five] (Card Spade Five))"
    using playOrDraw_match [of 1 ?hand "Card Heart Five" "Deck [] (Card Club Two)" emptyDeck]
    by (simp add: canPlayCard_def emptyDeck_def)
  from takeTurn_reshuffle [OF rB pB eA, of PlayerOne rand_zero] obtain h3' d3' g'' where
    B: "takeTurn (Deck [Card Heart Five] (Card Club Two)) ?hand emptyDeck PlayerOne rand_zero
          = Inr (h3', Deck [Card Club Two] (Card Club Two), d3', g'')"
       "shuffleDeck ((Deck [] (Card Club Two))
           \<lparr>cards := cards (Deck [Card Spade Five] (Card Spade Five))\<rparr>) rand_zero = (h3', g'')"
       "cards d3' = []"
       "topCard d3' = (topCard (Deck [Card Spade Five] (Card Spade Five)))\<lparr>rank := Two\<rparr>"
       "\<forall>m. m < length (cards ?hand) \<and> canPlayCard (cards ?hand ! m) (Card Heart Five)
                    \<and> (\<forall>k<m. \<not> canPlayCard (cards ?hand ! k) (Card Heart Five))
                  \<longrightarrow> cards ?hand ! m \<in> set (cards h3')"
    by blast
  have "shuffleDeck ((Deck [] (Card Club Two))
           \<lparr>cards := cards (Deck [Card Spade Five] (Card Spade Five))\<rparr>) rand_zero
        = (Deck [Card Spade Five] (Card Club Two), rand_zero)"
    by (simp add: shuffleDeck_def)
  with B(2) have hB: "h3' = Deck [Card Spade Five] (Card Club Two)"
    and gB: "g'' = rand_zero" by simp_all
  from B(3,4) have dB: "d3' = Deck [] (Card Spade Two)" by (cases d3') simp
  note tB = B(1) [unfolded hB gB dB]
  from B(5) mB have "cards ?hand ! 1 \<in> set (cards h3')" by blast
  with hB have inB: "[Card Club Two, Card Spade Five] ! 1 \<in> set [Card Spade Five]" by simp
  have cB: "canPlayCard ([Card Club Two, Card Spade Five] ! 1) (Card Heart Five)"
    and nB: "\<not> canPlayCard ([Card Club Two, Card Spade Five] ! 0) (Card Heart Five)"
    by (simp_all add: canPlayCard_def)
  from rA pA tA rB pB cB nB tB inB show ?thesis by blast
qed

text \<open>
  C6: for a pack count from one to ten, \<open>initializeDeck\<close> gives 52 cards per pack, every
  card value as many times as there are packs, and the cards in the order of the nested
  loops: pack by pack, within a pack suit by suit, within a suit rank by rank.
\<close>

theorem initializeDeck_contents:
  assumes "1 \<le> numPacks" and "numPacks \<le> 10"
  shows "length (cards (initializeDeck numPacks)) = 52 * nat numPacks
       \<and> (\<forall>c. count_list (cards (initializeDeck numPacks)) c = nat numPacks)
       \<and> (\<forall>p s r. p < nat numPacks \<and> s < 4 \<and> r < 13
            \<longrightarrow> cards (initializeDeck numPacks) ! (52 * p + 13 * s + r)
                = Card (suit_of_val s) (rank_of_val r))"
proof (intro conjI allI impI)
  show "length (cards (initializeDeck numPacks)) = 52 * nat numPacks"
    by (simp add: initializeDeck_cards length_concat length_one_pack sum_list_replicate)
next
  fix c
  show "count_list (cards (initializeDeck numPacks)) c = nat numPacks"
    by (simp add: initializeDeck_cards count_concat_replicate count_one_pack)
next
  fix p s r :: nat
  assume a: "p < nat numPacks \<and> s < 4 \<and> r < 13"
  then have i: "13 * s + r < length one_pack" by (simp add: length_one_pack)
  from a nth_concat_replicate [OF _ i, of p "nat numPacks"]
  have "concat (replicate (nat numPacks) one_pack) ! (52 * p + (13 * s + r))
        = one_pack ! (13 * s + r)"
    by (simp add: length_one_pack)
  with a show "cards (initializeDeck numPacks) ! (52 * p + 13 * s + r)
                = Card (suit_of_val s) (rank_of_val r)"
    by (simp add: initializeDeck_cards nth_one_pack add.assoc)
qed


theorem initializeDeck_contents_witness:
  "(1::int) \<le> 2 \<and> (2::int) \<le> 10
   \<and> length (cards (initializeDeck 2)) = 104
   \<and> count_list (cards (initializeDeck 2)) (Card Heart Five) = 2
   \<and> (1::nat) < nat 2 \<and> (2::nat) < 4 \<and> (3::nat) < 13
   \<and> cards (initializeDeck 2) ! 81 = Card Heart Five"
proof -
  have h: "(1::int) \<le> 2" "(2::int) \<le> 10" by simp_all
  note t = initializeDeck_contents [OF h]
  from t have len: "length (cards (initializeDeck 2)) = 104" by simp
  from t have cnt: "count_list (cards (initializeDeck 2)) (Card Heart Five) = 2" by simp
  have i: "(1::nat) < nat 2 \<and> (2::nat) < 4 \<and> (3::nat) < 13" by simp
  from t have "(1::nat) < nat 2 \<and> (2::nat) < 4 \<and> (3::nat) < 13
      \<longrightarrow> cards (initializeDeck 2) ! (52 * 1 + 13 * 2 + 3)
          = Card (suit_of_val 2) (rank_of_val 3)"
    by blast
  with i have "cards (initializeDeck 2) ! 81 = Card Heart Five"
    by (simp add: suit_of_val_def rank_of_val_def)
  with h len cnt i show ?thesis by simp
qed

text \<open>
  C8: after \<open>customSort\<close> the rank of every card is at most the rank of the card after
  it; a deck whose cards are already in that order is left as it is, and so sorting twice
  is sorting once.
\<close>

theorem customSort_sorted_idempotent:
  "(\<forall>i. i + 1 < length (cards (customSort deck))
        \<longrightarrow> rank_val (rank (cards (customSort deck) ! i))
            \<le> rank_val (rank (cards (customSort deck) ! (i + 1))))
   \<and> ((\<forall>i. i + 1 < length (cards deck)
          \<longrightarrow> rank_val (rank (cards deck ! i)) \<le> rank_val (rank (cards deck ! (i + 1))))
        \<longrightarrow> customSort deck = deck)
   \<and> customSort (customSort deck) = customSort deck"
proof -
  let ?n = "length (cards deck)"
  let ?cs = "sort_outer 0 ?n (cards deck)"
  have len: "length ?cs = ?n" by (rule sort_outer_length)
  have adj: "rk (?cs ! i) \<le> rk (?cs ! (i + 1))" if "i + 1 < ?n" for i
    using sort_outer_sorted [of "cards deck" ?n 0 i "i + 1"] that by simp
  have first: "\<forall>i. i + 1 < length (cards (customSort deck))
        \<longrightarrow> rk (cards (customSort deck) ! i) \<le> rk (cards (customSort deck) ! (i + 1))"
    using adj len by (simp add: customSort_def)
  have second: "customSort d = d"
    if "\<forall>i. i + 1 < length (cards d) \<longrightarrow> rk (cards d ! i) \<le> rk (cards d ! (i + 1))" for d
    using sort_outer_sorted_id [OF that, of 0] by (simp add: customSort_def)
  from second [OF first] have third: "customSort (customSort deck) = customSort deck" .
  from first second third show ?thesis by blast
qed


theorem customSort_sorted_idempotent_witness:
  "customSort (Deck [Card Spade King, Card Heart Two, Card Club Nine, Card Diamond Two] (Card Club Two))
     = Deck [Card Heart Two, Card Diamond Two, Card Club Nine, Card Spade King] (Card Club Two)
   \<and> (1::nat) + 1 < length [Card Heart Two, Card Diamond Two, Card Club Nine, Card Spade King]
   \<and> rank_val (rank ([Card Heart Two, Card Diamond Two, Card Club Nine, Card Spade King] ! 1))
       \<le> rank_val (rank ([Card Heart Two, Card Diamond Two, Card Club Nine, Card Spade King] ! (1 + 1)))
   \<and> customSort (Deck [Card Heart Two, Card Diamond Two, Card Club Nine, Card Spade King] (Card Club Two))
     = Deck [Card Heart Two, Card Diamond Two, Card Club Nine, Card Spade King] (Card Club Two)"
proof -
  let ?D = "Deck [Card Spade King, Card Heart Two, Card Club Nine, Card Diamond Two] (Card Club Two)"
  let ?S = "Deck [Card Heart Two, Card Diamond Two, Card Club Nine, Card Spade King] (Card Club Two)"
  have e: "customSort ?D = ?S" by code_simp
  from customSort_sorted_idempotent [of ?D]
  have srt: "\<forall>i. i + 1 < length (cards ?S)
        \<longrightarrow> rank_val (rank (cards ?S ! i)) \<le> rank_val (rank (cards ?S ! (i + 1)))"
    unfolding e by blast
  have l: "(1::nat) + 1 < length (cards ?S)" by simp
  with srt have a: "rank_val (rank (cards ?S ! 1)) \<le> rank_val (rank (cards ?S ! (1 + 1)))"
    by blast
  from customSort_sorted_idempotent [of ?S] srt have i: "customSort ?S = ?S" by blast
  from l have l': "(1::nat) + 1 < length [Card Heart Two, Card Diamond Two, Card Club Nine, Card Spade King]"
    by simp
  from a have a': "rank_val (rank ([Card Heart Two, Card Diamond Two, Card Club Nine, Card Spade King] ! 1))
       \<le> rank_val (rank ([Card Heart Two, Card Diamond Two, Card Club Nine, Card Spade King] ! (1 + 1)))"
    by simp
  from e l' a' i show ?thesis by blast
qed

text \<open>
  C5: in every state of a game, a played deck that is not empty has its last card as
  cached top card. In a turn from such a state the play-or-draw step either leaves the
  played deck as it is or appends one card and caches that card; after it the played
  deck is emptied and the rank of the cached card reset when the hidden deck is empty
  (the reshuffle), and is left as the step made it otherwise.
\<close>

theorem topCard_cache_invariant:
  assumes "reachable s"
  shows "(cards (playedDeck s) \<noteq> [] \<longrightarrow> topCard (playedDeck s) = last (cards (playedDeck s)))
       \<and> (\<forall>s'. gameStep s = Inr s' \<longrightarrow>
            (\<exists>topc h1 h2 p2 d2.
                referenceCard (hiddenDeck s) (playedDeck s) = Inr (topc, h1)
              \<and> playOrDraw h1 (if currentPlayer s = PlayerOne then player1 s else player2 s)
                    (playedDeck s) topc = Inr (h2, p2, d2)
              \<and> (d2 = playedDeck s
                   \<or> (\<exists>c. d2 = (playedDeck s)\<lparr>cards := cards (playedDeck s) @ [c], topCard := c\<rparr>))
              \<and> (cards h2 \<noteq> [] \<longrightarrow> playedDeck s' = d2)
              \<and> (cards h2 = []
                   \<longrightarrow> playedDeck s' = d2\<lparr>cards := [], topCard := (topCard d2)\<lparr>rank := Two\<rparr>\<rparr>)))"
proof (intro conjI allI impI)
  assume "cards (playedDeck s) \<noteq> []"
  with reachable_cache [OF assms] show "topCard (playedDeck s) = last (cards (playedDeck s))"
    by simp
next
  fix s'
  assume "gameStep s = Inr s'"
  from gameStep_takeTurn [OF this] obtain h p d g' where
    t: "takeTurn (hiddenDeck s) (if currentPlayer s = PlayerOne then player1 s else player2 s)
          (playedDeck s) (currentPlayer s) (randSrc s) = Inr (h, p, d, g')"
    and d: "playedDeck s' = d"
    by blast
  from takeTurn_played_steps [OF t] obtain topc h1 h2 d2 where
    r: "referenceCard (hiddenDeck s) (playedDeck s) = Inr (topc, h1)"
    and pd: "playOrDraw h1 (if currentPlayer s = PlayerOne then player1 s else player2 s)
               (playedDeck s) topc = Inr (h2, p, d2)"
    and a: "d2 = playedDeck s
            \<or> (\<exists>c. d2 = (playedDeck s)\<lparr>cards := cards (playedDeck s) @ [c], topCard := c\<rparr>)"
    and b: "cards h2 \<noteq> [] \<longrightarrow> d = d2"
    and c: "cards h2 = [] \<longrightarrow> d = d2\<lparr>cards := [], topCard := (topCard d2)\<lparr>rank := Two\<rparr>\<rparr>"
    by blast
  from r pd a b c
  show "\<exists>topc h1 h2 p2 d2.
                referenceCard (hiddenDeck s) (playedDeck s) = Inr (topc, h1)
              \<and> playOrDraw h1 (if currentPlayer s = PlayerOne then player1 s else player2 s)
                    (playedDeck s) topc = Inr (h2, p2, d2)
              \<and> (d2 = playedDeck s
                   \<or> (\<exists>c. d2 = (playedDeck s)\<lparr>cards := cards (playedDeck s) @ [c], topCard := c\<rparr>))
              \<and> (cards h2 \<noteq> [] \<longrightarrow> playedDeck s' = d2)
              \<and> (cards h2 = []
                   \<longrightarrow> playedDeck s' = d2\<lparr>cards := [], topCard := (topCard d2)\<lparr>rank := Two\<rparr>\<rparr>)"
    unfolding d by (intro exI conjI)
qed



theorem topCard_cache_invariant_witness:
  "reachable game_turn1
   \<and> cards (playedDeck game_turn1) \<noteq> []
   \<and> topCard (playedDeck game_turn1) = last (cards (playedDeck game_turn1))
   \<and> gameStep game_turn1 = Inr game_turn2
   \<and> (\<exists>topc h1 h2 p2 d2.
         referenceCard (hiddenDeck game_turn1) (playedDeck game_turn1) = Inr (topc, h1)
       \<and> playOrDraw h1
            (if currentPlayer game_turn1 = PlayerOne then player1 game_turn1
             else player2 game_turn1)
            (playedDeck game_turn1) topc = Inr (h2, p2, d2)
       \<and> (d2 = playedDeck game_turn1
            \<or> (\<exists>c. d2 = (playedDeck game_turn1)
                         \<lparr>cards := cards (playedDeck game_turn1) @ [c], topCard := c\<rparr>))
       \<and> (cards h2 \<noteq> [] \<longrightarrow> playedDeck game_turn2 = d2)
       \<and> (cards h2 = []
            \<longrightarrow> playedDeck game_turn2
                = d2\<lparr>cards := [], topCard := (topCard d2)\<lparr>rank := Two\<rparr>\<rparr>))"
proof -
  note t = topCard_cache_invariant [OF game_turn1_reachable]
  have ne: "cards (playedDeck game_turn1) \<noteq> []" by (simp add: game_turn1_def)
  have c: "topCard (playedDeck game_turn1) = last (cards (playedDeck game_turn1))"
    using t [THEN conjunct1, rule_format, OF ne] .
  have e: "\<exists>topc h1 h2 p2 d2.
         referenceCard (hiddenDeck game_turn1) (playedDeck game_turn1) = Inr (topc, h1)
       \<and> playOrDraw h1
            (if currentPlayer game_turn1 = PlayerOne then player1 game_turn1
             else player2 game_turn1)
            (playedDeck game_turn1) topc = Inr (h2, p2, d2)
       \<and> (d2 = playedDeck game_turn1
            \<or> (\<exists>c. d2 = (playedDeck game_turn1)
                         \<lparr>cards := cards (playedDeck game_turn1) @ [c], topCard := c\<rparr>))
       \<and> (cards h2 \<noteq> [] \<longrightarrow> playedDeck game_turn2 = d2)
       \<and> (cards h2 = []
            \<longrightarrow> playedDeck game_turn2
                = d2\<lparr>cards := [], topCard := (topCard d2)\<lparr>rank := Two\<rparr>\<rparr>)"
    using t [THEN conjunct2, rule_format, OF game_turn2_step] .
  from game_turn1_reachable ne c game_turn2_step e show ?thesis by (intro conjI)
qed

end
